theory Spec2Isabelle
  imports Main "HOL-Library.Word" "HOL-Library.Signed_Division" "HOL-Library.Log_Nat"
begin

unbundle bit_operations_syntax

section \<open>Machine types and faults\<close>

text \<open>
  The native module is a Windows program (WASAPI), so the target is little-endian and
  \<open>int\<close> is 32 bits wide. \<open>int16_t\<close> samples are 16-bit words read through \<open>sint\<close>;
  \<open>HRESULT\<close>, \<open>UINT32\<close> and \<open>DWORD\<close> are 32-bit words; the \<open>int\<close> members of the
  classes (sample rates, channel counts) are integers in the 32-bit signed range.

  Behaviour that C++ leaves undefined, and exceptions nobody catches, are values of the
  type \<open>fault\<close>: every operation that can reach one returns \<open>fault + 'a\<close>.
\<close>

type_synonym int16 = "16 word"
type_synonym byte = "8 word"
type_synonym HRESULT = "32 word"

datatype fault =
    UndefinedConversion  \<comment> \<open>floating-point to integer cast whose truncated value does not fit\<close>
  | OutOfBounds          \<comment> \<open>read past the end of a buffer or vector\<close>
  | LengthError          \<comment> \<open>\<open>resize\<close> or \<open>assign\<close> with a negative count\<close>

text \<open>Collecting the results of a loop body that may fault: the first fault wins.\<close>

fun collect :: "('e + 'a) list \<Rightarrow> 'e + 'a list" where
  "collect [] = Inr []"
| "collect (Inl e # rs) = Inl e"
| "collect (Inr v # rs) = (case collect rs of Inl e \<Rightarrow> Inl e | Inr vs \<Rightarrow> Inr (v # vs))"

section \<open>IEEE-754 arithmetic on finite values\<close>

text \<open>
  A finite \<open>float\<close> or \<open>double\<close> is the rational number it denotes. Every arithmetic
  operation of the source is the exact operation followed by rounding to the nearest
  representable value, ties to even: \<open>fl_round p emin\<close> for a format with \<open>p\<close> significand
  bits and least normal exponent \<open>emin\<close> (gradual underflow below it). Overflow to
  infinity is not part of \<open>fl_round\<close>; the operands of this program stay far below it.
\<close>

definition ilog2 :: "rat \<Rightarrow> int" where
  "ilog2 x =
     (let (p, q) = quotient_of \<bar>x\<bar>; d = bitlen p - bitlen q
      in if 2 powi d \<le> \<bar>x\<bar> then d else d - 1)"

definition round_half_even :: "rat \<Rightarrow> int" where
  "round_half_even x =
     (let f = \<lfloor>x\<rfloor>; d = x - of_int f
      in if d < 1 / 2 then f else if 1 / 2 < d then f + 1 else if even f then f else f + 1)"

definition fl_round :: "nat \<Rightarrow> int \<Rightarrow> rat \<Rightarrow> rat" where
  "fl_round p emin x =
     (if x = 0 then 0
      else let e = max (ilog2 x) emin; ulp = 2 powi (e - int p + 1)
           in of_int (round_half_even (x / ulp)) * ulp)"

definition fl32 :: "rat \<Rightarrow> rat" where
  "fl32 = fl_round 24 (-126)"

definition fl64 :: "rat \<Rightarrow> rat" where
  "fl64 = fl_round 53 (-1022)"

text \<open>A cast from a floating-point value to an integer type truncates toward zero.\<close>

definition trunc_toward_zero :: "rat \<Rightarrow> int" where
  "trunc_toward_zero x = (if 0 \<le> x then \<lfloor>x\<rfloor> else \<lceil>x\<rceil>)"

definition to_int16 :: "rat \<Rightarrow> fault + int16" where
  "to_int16 x =
     (let k = trunc_toward_zero x
      in if - 32768 \<le> k \<and> k \<le> 32767 then Inr (word_of_int k) else Inl UndefinedConversion)"

text \<open>
  The 32-bit pattern of a \<open>float\<close>: sign, eight exponent bits, twenty-three fraction
  bits.
\<close>

datatype float32 = Finite rat | PosInf | NegInf | NaN

definition decode_float32 :: "32 word \<Rightarrow> float32" where
  "decode_float32 w =
     (let s = (uint w div 2 ^ 31 = 1);
          e = uint w div 2 ^ 23 mod 256;
          m = uint w mod 2 ^ 23;
          sg = (if s then - 1 else 1)
      in if e = 255 then (if m = 0 then (if s then NegInf else PosInf) else NaN)
         else if e = 0 then Finite (sg * of_int m * 2 powi (- 149))
         else Finite (sg * of_int (2 ^ 23 + m) * 2 powi (e - 150)))"

text \<open>\<open>a > b\<close> and \<open>a < b\<close> on floats; every comparison with a NaN is false.\<close>

fun float32_less :: "float32 \<Rightarrow> float32 \<Rightarrow> bool" where
  "float32_less NaN b = False"
| "float32_less a NaN = False"
| "float32_less PosInf b = False"
| "float32_less a NegInf = False"
| "float32_less NegInf b = True"
| "float32_less a PosInf = True"
| "float32_less (Finite x) (Finite y) = (x < y)"

section \<open>The Windows SDK names the source uses\<close>

text \<open>
  The format tags, the silence flag and the \<open>FAILED\<close> macro come from the Windows SDK
  headers, which are not part of the repository. The model takes them as a parameter
  \<open>W\<close>; \<open>windows_sdk\<close> holds the values the SDK headers give them and is used where a
  concrete environment is needed.
\<close>

record winapi =
  WAVE_FORMAT_IEEE_FLOAT :: "16 word"
  WAVE_FORMAT_EXTENSIBLE :: "16 word"
  AUDCLNT_BUFFERFLAGS_SILENT :: "32 word"
  FAILED :: "HRESULT \<Rightarrow> bool"

definition windows_sdk :: winapi where
  "windows_sdk =
     \<lparr> WAVE_FORMAT_IEEE_FLOAT = 0x0003,
       WAVE_FORMAT_EXTENSIBLE = 0xFFFE,
       AUDCLNT_BUFFERFLAGS_SILENT = 0x2,
       FAILED = (\<lambda>hr. sint hr < 0) \<rparr>"

section \<open>Sample normalisation (\<open>AudioCapture::CaptureThread\<close>, the conversion block)\<close>

text \<open>
  The stream format as the capture thread reads it: \<open>wFormatTag\<close> and \<open>wBitsPerSample\<close>
  of \<open>WAVEFORMATEX\<close>. \<open>subFormatIsPcm\<close> stands for the \<open>SubFormat\<close> member of an
  extensible descriptor; the source never reads it.
\<close>

record WAVEFORMATEX =
  wFormatTag :: "16 word"
  wBitsPerSample :: "16 word"
  subFormatIsPcm :: bool

text \<open>One packet as \<open>GetBuffer\<close> hands it out.\<close>

record packet =
  data :: "byte list"
  numFramesAvailable :: "32 word"
  flags :: "32 word"

text \<open>\<open>floatData[i]\<close> and \<open>pcmData[i]\<close>: little-endian reads from the packet's bytes.\<close>

definition read_float :: "byte list \<Rightarrow> nat \<Rightarrow> fault + 32 word" where
  "read_float d i =
     (if 4 * i + 4 \<le> length d
      then Inr (word_rcat [d ! (4 * i + 3), d ! (4 * i + 2), d ! (4 * i + 1), d ! (4 * i)])
      else Inl OutOfBounds)"

definition read_int16 :: "byte list \<Rightarrow> nat \<Rightarrow> fault + int16" where
  "read_int16 d i =
     (if 2 * i + 2 \<le> length d
      then Inr (word_rcat [d ! (2 * i + 1), d ! (2 * i)])
      else Inl OutOfBounds)"

text \<open>
  The body of the conversion loop: clamp, scale by \<open>32767.0f\<close> in single precision, cast.
\<close>

definition clamp_sample :: "float32 \<Rightarrow> float32" where
  "clamp_sample sample =
     (let sample = (if float32_less (Finite 1) sample then Finite 1 else sample);
          sample = (if float32_less sample (Finite (- 1)) then Finite (- 1) else sample)
      in sample)"

definition float_to_pcm :: "float32 \<Rightarrow> fault + int16" where
  "float_to_pcm sample =
     (case clamp_sample sample of
        Finite v \<Rightarrow> to_int16 (fl32 (v * 32767))
      | _ \<Rightarrow> Inl UndefinedConversion)"

definition convert_float_packet :: "byte list \<Rightarrow> int \<Rightarrow> fault + int16 list" where
  "convert_float_packet floatData numSamples =
     (if numSamples < 0 then Inl LengthError
      else collect (map (\<lambda>i. case read_float floatData i of
                                 Inl e \<Rightarrow> Inl e
                               | Inr w \<Rightarrow> float_to_pcm (decode_float32 w))
                        [0..<nat numSamples]))"

definition copy_pcm_packet :: "byte list \<Rightarrow> int \<Rightarrow> fault + int16 list" where
  "copy_pcm_packet pcmData numSamples =
     (if numSamples < 0 then Inl LengthError
      else collect (map (read_int16 pcmData) [0..<nat numSamples]))"

text \<open>\<open>int numSamples = numFramesAvailable * m_channels\<close>: a 32-bit product read as \<open>int\<close>.\<close>

definition num_samples :: "32 word \<Rightarrow> int \<Rightarrow> int" where
  "num_samples frames channels = sint (frames * word_of_int channels)"

definition normalize_packet :: "winapi \<Rightarrow> WAVEFORMATEX \<Rightarrow> int \<Rightarrow> packet \<Rightarrow> fault + int16 list" where
  "normalize_packet W fmt channels pkt =
     (if wFormatTag fmt = WAVE_FORMAT_IEEE_FLOAT W \<or> wFormatTag fmt = WAVE_FORMAT_EXTENSIBLE W
      then convert_float_packet (data pkt) (num_samples (numFramesAvailable pkt) channels)
      else if wBitsPerSample fmt = 16
      then copy_pcm_packet (data pkt) (num_samples (numFramesAvailable pkt) channels)
      else Inr [])"

section \<open>\<open>AudioCapture\<close>\<close>

text \<open>
  The members the modelled methods read or write. \<open>m_audioClient\<close> records whether the
  pointer is non-null; the callback is a function on the state \<open>'b\<close> it captures.
\<close>

type_synonym 'b AudioDataCallback = "int16 list \<Rightarrow> int \<Rightarrow> int \<Rightarrow> 'b \<Rightarrow> 'b"

record 'b AudioCapture =
  m_audioClient :: bool
  m_waveFormat :: WAVEFORMATEX
  m_isCapturing :: bool
  m_threadStarted :: bool
  m_callback :: "'b AudioDataCallback option"
  m_sampleRate :: int
  m_channels :: int
  m_lastError :: string

text \<open>
  \<open>AudioCapture::Start\<close>; \<open>hr\<close> is what \<open>m_audioClient->Start()\<close> returns when it is
  reached.
\<close>

definition AudioCapture_Start ::
  "winapi \<Rightarrow> HRESULT \<Rightarrow> 'b AudioDataCallback \<Rightarrow> 'b AudioCapture \<Rightarrow> bool \<times> 'b AudioCapture" where
  "AudioCapture_Start W hr callback ac =
     (if m_isCapturing ac then (False, ac\<lparr>m_lastError := ''Already capturing''\<rparr>)
      else if \<not> m_audioClient ac then (False, ac\<lparr>m_lastError := ''Audio client not initialized''\<rparr>)
      else let ac = ac\<lparr>m_callback := Some callback, m_isCapturing := True\<rparr>
           in if FAILED W hr
              then (False, ac\<lparr>m_isCapturing := False, m_lastError := ''Failed to start audio client''\<rparr>)
              else (True, ac\<lparr>m_threadStarted := True\<rparr>))"

subsection \<open>The capture thread\<close>

text \<open>
  The thread talks to its environment: it reads the atomic \<open>m_isCapturing\<close>, which another
  thread may clear, and calls the capture client. A run is driven by a script of the
  answers the environment gives, in the order the thread asks.
\<close>

datatype event =
    IsCapturing bool
  | GetNextPacketSize HRESULT "32 word"
  | GetBuffer HRESULT packet
  | ReleaseBuffer HRESULT

text \<open>
  How an observed run ends: the thread function returned, it faulted, or the script ended
  (or answered a call the thread did not make) while the thread was still in its loop.
\<close>

datatype 's outcome = Exited 's | Faulted fault | StillRunning 's

text \<open>The block guarded by \<open>m_callback && numFramesAvailable > 0\<close>.\<close>

definition process_packet ::
  "winapi \<Rightarrow> 'b AudioCapture \<Rightarrow> packet \<Rightarrow> 'b \<Rightarrow> fault + 'b" where
  "process_packet W ac pkt buf =
     (case m_callback ac of
        None \<Rightarrow> Inr buf
      | Some callback \<Rightarrow>
          if numFramesAvailable pkt = 0 then Inr buf
          else (case normalize_packet W (m_waveFormat ac) (m_channels ac) pkt of
                  Inl e \<Rightarrow> Inl e
                | Inr samples \<Rightarrow>
                    if samples \<noteq> [] \<and> flags pkt AND AUDCLNT_BUFFERFLAGS_SILENT W = 0
                    then Inr (callback samples (m_sampleRate ac) (m_channels ac) buf)
                    else Inr buf))"

text \<open>
  \<open>CaptureThread\<close> is the outer \<open>while (m_isCapturing)\<close> loop, \<open>drain\<close> the inner
  \<open>while (packetLength != 0)\<close> loop. Every \<open>break\<close> of the inner loop, like its normal
  end, falls through to \<open>Sleep(10)\<close> and the next test of the outer loop.
\<close>

function CaptureThread ::
    "winapi \<Rightarrow> event list \<Rightarrow> 'b AudioCapture \<times> 'b \<Rightarrow> ('b AudioCapture \<times> 'b) outcome"
  and drain ::
    "winapi \<Rightarrow> 32 word \<Rightarrow> event list \<Rightarrow> 'b AudioCapture \<times> 'b \<Rightarrow> ('b AudioCapture \<times> 'b) outcome"
where
  "CaptureThread W script st =
     (case script of
        IsCapturing running # script1 \<Rightarrow>
          if \<not> running then Exited st
          else (case script1 of
                  GetNextPacketSize hr packetLength # script2 \<Rightarrow>
                    if FAILED W hr then Exited st
                    else drain W packetLength script2 st
                | _ \<Rightarrow> StillRunning st)
      | _ \<Rightarrow> StillRunning st)"
| "drain W packetLength script st =
     (if packetLength = 0 then CaptureThread W script st
      else (case script of
              GetBuffer hr pkt # script1 \<Rightarrow>
                if FAILED W hr then CaptureThread W script1 st
                else (case process_packet W (fst st) pkt (snd st) of
                        Inl e \<Rightarrow> Faulted e
                      | Inr buf \<Rightarrow>
                          (case script1 of
                             ReleaseBuffer hr2 # script2 \<Rightarrow>
                               if FAILED W hr2 then CaptureThread W script2 (fst st, buf)
                               else (case script2 of
                                       GetNextPacketSize hr3 packetLength' # script3 \<Rightarrow>
                                         if FAILED W hr3 then CaptureThread W script3 (fst st, buf)
                                         else drain W packetLength' script3 (fst st, buf)
                                     | _ \<Rightarrow> StillRunning (fst st, buf))
                           | _ \<Rightarrow> StillRunning (fst st, buf)))
            | _ \<Rightarrow> StillRunning st))"
  by pat_completeness auto
termination
  by (relation "measure (\<lambda>x. case x of
          Inl (W, script, st) \<Rightarrow> 2 * length script
        | Inr (W, packetLength, script, st) \<Rightarrow> 2 * length script + 1)") auto

declare CaptureThread.simps [simp del] drain.simps [simp del]

section \<open>\<open>WasapiLoopback\<close>\<close>

text \<open>
  The members guarded by \<open>m_bufferMutex\<close>, and the object that owns them together with
  its \<open>AudioCapture\<close>. A method call is one step on this state: the model is sequential.
\<close>

record accumulation =
  m_audioBuffer :: "int16 list"
  m_capturedSampleRate :: int
  m_capturedChannels :: int

record WasapiLoopback =
  m_capture :: "accumulation AudioCapture"
  m_buffer :: accumulation

text \<open>The lambda \<open>WasapiLoopback::Start\<close> registers as the capture callback.\<close>

definition accumulate :: "accumulation AudioDataCallback" where
  "accumulate samples sampleRate channels b =
     b\<lparr>m_audioBuffer := m_audioBuffer b @ samples,
       m_capturedSampleRate := sampleRate,
       m_capturedChannels := channels\<rparr>"

definition WasapiLoopback_Start :: "winapi \<Rightarrow> HRESULT \<Rightarrow> WasapiLoopback \<Rightarrow> bool \<times> WasapiLoopback" where
  "WasapiLoopback_Start W hr w =
     (let w = w\<lparr>m_buffer := (m_buffer w)\<lparr>m_audioBuffer := []\<rparr>\<rparr>;
          (result, ac) = AudioCapture_Start W hr accumulate (m_capture w)
      in (result, w\<lparr>m_capture := ac\<rparr>))"

subsection \<open>Stereo to mono\<close>

text \<open>
  \<open>(int16_t)((left + right) / 2)\<close> with \<open>int32_t\<close> operands: the sum is a 32-bit sum, the
  division truncates toward zero, the cast keeps the low sixteen bits.
\<close>

definition mix_frame :: "int16 \<Rightarrow> int16 \<Rightarrow> int16" where
  "mix_frame l r =
     (let left = (scast l :: 32 word); right = (scast r :: 32 word)
      in ucast (word_of_int (sint (left + right) sdiv 2) :: 32 word))"

definition downmix :: "int \<Rightarrow> int16 list \<Rightarrow> int16 list" where
  "downmix sourceChannels samples =
     (if sourceChannels = 2
      then map (\<lambda>i. mix_frame (samples ! (i * 2)) (samples ! (i * 2 + 1)))
               [0..<length samples div 2]
      else samples)"

subsection \<open>Resampling\<close>

text \<open>
  All arithmetic of the resampling block is \<open>double\<close> arithmetic: each operation is the
  exact one rounded by \<open>fl64\<close>, and a \<open>size_t\<close> or \<open>int16_t\<close> operand is converted first.
  \<open>size_t\<close> has 64 bits.
\<close>

definition to_size_t :: "rat \<Rightarrow> fault + nat" where
  "to_size_t x =
     (let k = trunc_toward_zero x
      in if 0 \<le> k \<and> k < 2 ^ 64 then Inr (nat k) else Inl UndefinedConversion)"

text \<open>The body of the resampling loop for output index \<open>i\<close>.\<close>

definition resample_at :: "int16 list \<Rightarrow> rat \<Rightarrow> nat \<Rightarrow> fault + int16" where
  "resample_at monoSamples ratio i =
     (let srcIndex = fl64 (fl64 (of_nat i) * ratio)
      in (case to_size_t srcIndex of
            Inl e \<Rightarrow> Inl e
          | Inr srcIndexInt \<Rightarrow>
              let frac = fl64 (srcIndex - fl64 (of_nat srcIndexInt))
              in if srcIndexInt + 1 < length monoSamples
                 then to_int16
                        (fl64 (fl64 (of_int (sint (monoSamples ! srcIndexInt)) * fl64 (1 - frac)) +
                               fl64 (of_int (sint (monoSamples ! (srcIndexInt + 1))) * frac)))
                 else if srcIndexInt < length monoSamples then Inr (monoSamples ! srcIndexInt)
                 else Inl OutOfBounds))"

text \<open>
  A target rate of zero makes \<open>ratio\<close> infinite and \<open>size / ratio\<close> zero; a source rate of
  zero makes \<open>ratio\<close> zero and \<open>size / ratio\<close> infinite or NaN, which has no \<open>size_t\<close> value.
\<close>

definition resample :: "int \<Rightarrow> int \<Rightarrow> int16 list \<Rightarrow> fault + int16 list" where
  "resample sourceSampleRate targetSampleRate monoSamples =
     (if sourceSampleRate \<noteq> targetSampleRate
      then if targetSampleRate = 0 then Inr []
           else if sourceSampleRate = 0 then Inl UndefinedConversion
           else let ratio = fl64 (of_int sourceSampleRate / of_int targetSampleRate)
                in (case to_size_t (fl64 (fl64 (of_nat (length monoSamples)) / ratio)) of
                      Inl e \<Rightarrow> Inl e
                    | Inr newSize \<Rightarrow> collect (map (resample_at monoSamples ratio) [0..<newSize]))
      else Inr monoSamples)"

subsection \<open>The WAV container\<close>

definition le16 :: "16 word \<Rightarrow> byte list" where
  "le16 w = [ucast w, ucast (drop_bit 8 w)]"

definition le32 :: "32 word \<Rightarrow> byte list" where
  "le32 w = [ucast w, ucast (drop_bit 8 w), ucast (drop_bit 16 w), ucast (drop_bit 24 w)]"

definition tag :: "string \<Rightarrow> byte list" where
  "tag s = map (\<lambda>c. of_nat (of_char c)) s"

text \<open>
  The bytes the sequence of \<open>file.write\<close> calls produces. The last call writes
  \<open>dataSize\<close> bytes of the sample array.
\<close>

definition wav_bytes :: "int \<Rightarrow> int16 list \<Rightarrow> byte list" where
  "wav_bytes targetSampleRate resampledSamples =
     (let dataSize = (of_nat (length resampledSamples * 2) :: 32 word);
          fileSize = 36 + dataSize;
          audioFormat = (1 :: 16 word);
          numChannels = (1 :: 16 word);
          sampleRate = (word_of_int targetSampleRate :: 32 word);
          byteRate = sampleRate * ucast numChannels * 2;
          blockAlign = numChannels * 2;
          bitsPerSample = (16 :: 16 word);
          fmtChunkSize = (16 :: 32 word)
      in tag ''RIFF'' @ le32 fileSize @ tag ''WAVE'' @
         tag ''fmt '' @ le32 fmtChunkSize @ le16 audioFormat @ le16 numChannels @
         le32 sampleRate @ le32 byteRate @ le16 blockAlign @ le16 bitsPerSample @
         tag ''data'' @ le32 dataSize @
         take (unat dataSize) (concat (map le16 resampledSamples)))"

subsection \<open>\<open>SaveToWav\<close>\<close>

text \<open>
  The arguments of the JavaScript call; a number argument carries its \<open>Int32Value\<close>.
  \<open>can_open\<close> says whether \<open>std::ofstream\<close> opens the path. The result is what the call
  returns, the file it wrote (if any) and the object's new state.
\<close>

datatype js_value = JsString string | JsNumber int | JsOther

datatype js_result = JsBoolean bool | TypeErrorThrown

definition SaveToWav ::
  "(string \<Rightarrow> bool) \<Rightarrow> js_value list \<Rightarrow> WasapiLoopback \<Rightarrow>
     fault + (js_result \<times> (string \<times> byte list) option \<times> WasapiLoopback)" where
  "SaveToWav can_open info w =
     (case info of
        JsString filePath # args \<Rightarrow>
          let targetSampleRate = (case args of JsNumber n # _ \<Rightarrow> n | _ \<Rightarrow> 16000);
              samples = m_audioBuffer (m_buffer w);
              sourceSampleRate = m_capturedSampleRate (m_buffer w);
              sourceChannels = m_capturedChannels (m_buffer w);
              w = w\<lparr>m_buffer := (m_buffer w)\<lparr>m_audioBuffer := []\<rparr>\<rparr>
          in if samples = [] then Inr (JsBoolean False, None, w)
             else let monoSamples = downmix sourceChannels samples
                  in (case resample sourceSampleRate targetSampleRate monoSamples of
                        Inl e \<Rightarrow> Inl e
                      | Inr resampledSamples \<Rightarrow>
                          if \<not> can_open filePath then Inr (JsBoolean False, None, w)
                          else Inr (JsBoolean True,
                                    Some (filePath, wav_bytes targetSampleRate resampledSamples), w))
      | _ \<Rightarrow> Inr (TypeErrorThrown, None, w))"

section \<open>Reading the written file, and concrete states\<close>

text \<open>
  \<open>field bs off len\<close> is the unsigned number that \<open>len\<close> bytes at offset \<open>off\<close> hold in
  little-endian order: how a WAV reader decodes the header.
\<close>

definition le_nat :: "byte list \<Rightarrow> nat" where
  "le_nat bs = foldr (\<lambda>b acc. unat b + 256 * acc) bs 0"

definition field :: "byte list \<Rightarrow> nat \<Rightarrow> nat \<Rightarrow> nat" where
  "field bs off len = le_nat (take len (drop off bs))"

text \<open>
  A capture object in the middle of a run on a 16 kHz mono 16-bit PCM stream, and the
  loopback object that owns it with some samples accumulated.
\<close>

definition pcm16_format :: WAVEFORMATEX where
  "pcm16_format = \<lparr>wFormatTag = 0x0001, wBitsPerSample = 16, subFormatIsPcm = True\<rparr>"

definition running_capture :: "accumulation AudioCapture" where
  "running_capture =
     \<lparr>m_audioClient = True, m_waveFormat = pcm16_format, m_isCapturing = True,
      m_threadStarted = True, m_callback = Some accumulate,
      m_sampleRate = 16000, m_channels = 1, m_lastError = []\<rparr>"

definition loopback_holding :: "int16 list \<Rightarrow> WasapiLoopback" where
  "loopback_holding samples =
     \<lparr>m_capture = running_capture,
      m_buffer = \<lparr>m_audioBuffer = samples, m_capturedSampleRate = 16000,
                  m_capturedChannels = 1\<rparr>\<rparr>"

text \<open>An extensible descriptor whose sub-format is 16-bit signed PCM.\<close>

definition extensible_pcm16_format :: WAVEFORMATEX where
  "extensible_pcm16_format = \<lparr>wFormatTag = 0xFFFE, wBitsPerSample = 16, subFormatIsPcm = True\<rparr>"

section \<open>The documented formulas, and inputs for the concrete runs\<close>

text \<open>
  The normaliser as the specification words it: clamp the sample to \<open>[-1, 1]\<close>, then scale
  by 32767 and truncate toward zero. The product is the single-precision one. Infinities
  clamp to the bounds; the value chosen for a NaN is never used.
\<close>

definition clamp_unit :: "float32 \<Rightarrow> rat" where
  "clamp_unit x =
     (case x of Finite v \<Rightarrow> max (- 1) (min 1 v) | PosInf \<Rightarrow> 1 | NegInf \<Rightarrow> - 1 | NaN \<Rightarrow> 0)"

definition clamp_and_scale :: "float32 \<Rightarrow> int" where
  "clamp_and_scale x = trunc_toward_zero (fl32 (clamp_unit x * 32767))"

text \<open>The unit roundoff of double precision.\<close>

definition u64 :: rat where
  "u64 = 1 / 2 ^ 53"

text \<open>
  One packet holding the 16-bit sample \<open>0x1234\<close>, one full polling cycle that retrieves and
  releases it and then finds the queue empty, and an accumulation buffer at 16 kHz mono.
\<close>

definition pcm_packet :: packet where
  "pcm_packet = \<lparr>data = [0x34, 0x12], numFramesAvailable = 1, flags = 0\<rparr>"

definition polling_cycle :: "event list" where
  "polling_cycle =
     [IsCapturing True, GetNextPacketSize 0 1, GetBuffer 0 pcm_packet, ReleaseBuffer 0,
      GetNextPacketSize 0 0]"

definition holding :: "int16 list \<Rightarrow> accumulation" where
  "holding samples =
     \<lparr>m_audioBuffer = samples, m_capturedSampleRate = 16000, m_capturedChannels = 1\<rparr>"

section \<open>Stereo downmix\<close>

lemma sint_int16_range: "- 32768 \<le> sint (x :: int16) \<and> sint x \<le> 32767"
  using sint_ge[of x] sint_lt[of x] by simp

lemma sint_widen: "sint (scast (x :: int16) :: 32 word) = sint x"
  using sint_int16_range[of x]
  by (simp add: signed_scast_eq signed_take_bit_int_eq_self)

lemma sint_narrow:
  assumes "- 32768 \<le> k" "k \<le> 32767"
  shows "sint (ucast (word_of_int k :: 32 word) :: int16) = k"
proof -
  have "sint (ucast (word_of_int k :: 32 word) :: int16) = signed_take_bit 15 (take_bit 32 k)"
    by (simp add: signed_ucast_eq unsigned_of_int sint_sbintrunc')
  also have "\<dots> = signed_take_bit 15 k"
    by (simp add: signed_take_bit_take_bit)
  also have "\<dots> = k" using assms by (simp add: signed_take_bit_int_eq_self)
  finally show ?thesis .
qed

lemma sint_mix_frame: "sint (mix_frame l r) = (sint l + sint r) sdiv 2"
proof -
  have l: "- 32768 \<le> sint l" "sint l \<le> 32767" using sint_int16_range[of l] by simp_all
  have r: "- 32768 \<le> sint r" "sint r \<le> 32767" using sint_int16_range[of r] by simp_all
  have sum: "sint ((scast l :: 32 word) + scast r) = sint l + sint r"
    using l r by (simp add: sint_word_add sint_widen signed_take_bit_int_eq_self)
  have q: "- 32768 \<le> (sint l + sint r) sdiv 2" "(sint l + sint r) sdiv 2 \<le> 32767"
    using l r by (auto simp: signed_divide_int_def sgn_if)
  show ?thesis
    unfolding mix_frame_def Let_def sum
    using q by (rule sint_narrow)
qed

lemma downmix_length: "length (downmix 2 samples) = length samples div 2"
  by (simp add: downmix_def)

lemma downmix_nth:
  "i < length samples div 2 \<Longrightarrow>
     sint (downmix 2 samples ! i) = (sint (samples ! (2 * i)) + sint (samples ! (2 * i + 1))) sdiv 2"
  by (simp add: downmix_def sint_mix_frame mult.commute)

text \<open>
  C5. With two channels the downmix yields one sample per frame, whose signed value is
  \<open>(left + right) / 2\<close> with the division truncating toward zero (\<open>sdiv\<close>); the sum of two
  16-bit values fits 32 bits and the quotient fits 16 bits, so nothing wraps. With any
  other channel count the samples pass through unchanged.
\<close>

theorem downmix_mean_or_passthrough:
  "length (downmix 2 samples) = length samples div 2 \<and>
   (\<forall>i < length samples div 2.
      sint (downmix 2 samples ! i) =
        (sint (samples ! (2 * i)) + sint (samples ! (2 * i + 1))) sdiv 2) \<and>
   (channels \<noteq> 2 \<longrightarrow> downmix channels samples = samples)"
  using downmix_length downmix_nth by (simp add: downmix_def)

theorem downmix_mean_or_passthrough_witness:
  "length (downmix 2 [100, - 50, 32767, 32767]) = 2 \<and>
   sint (downmix 2 [100, - 50, 32767, 32767] ! 0) = 25 \<and>
   sint (downmix 2 [100, - 50, 32767, 32767] ! 1) = 32767 \<and>
   downmix 1 [100, - 50, 32767] = [100, - 50, 32767]"
  using downmix_mean_or_passthrough [of "[100, - 50, 32767, 32767]" 1]
    downmix_mean_or_passthrough [of "[100, - 50, 32767]" 1]
  by (simp add: signed_divide_int_def)

section \<open>Resampling at equal rates\<close>

text \<open>
  C9. When the captured rate equals the target rate the resampling stage returns its
  input sequence unchanged.
\<close>

theorem resample_identity: "resample rate rate monoSamples = Inr monoSamples"
  by (simp add: resample_def)

section \<open>What an export and a second start do to the buffer\<close>

text \<open>
  C1. \<open>SaveToWav\<close> empties \<open>m_audioBuffer\<close> while it takes the snapshot, before the file is
  opened. An export of three accumulated samples to a path that cannot be opened returns
  \<open>false\<close> and leaves the buffer empty: the samples are lost.
\<close>

theorem SaveToWav_open_failure_clears_buffer:
  "SaveToWav (\<lambda>path. False) [JsString ''out.wav''] (loopback_holding [1, 2, 3]) =
     Inr (JsBoolean False, None, loopback_holding [])"
  by (simp add: SaveToWav_def loopback_holding_def downmix_def resample_def)

text \<open>
  C3. \<open>WasapiLoopback::Start\<close> empties \<open>m_audioBuffer\<close> before it asks \<open>AudioCapture::Start\<close>,
  which is where a running capture is detected. A second start during a run that has
  accumulated three samples returns \<open>false\<close>, sets the error message and leaves the
  capture object running, but the accumulated samples are gone.
\<close>

theorem second_Start_clears_buffer:
  "WasapiLoopback_Start windows_sdk 0 (loopback_holding [1, 2, 3]) =
     (False, (loopback_holding [])\<lparr>m_capture :=
                running_capture\<lparr>m_lastError := ''Already capturing''\<rparr>\<rparr>)"
  by (simp add: WasapiLoopback_Start_def AudioCapture_Start_def loopback_holding_def
      running_capture_def)

section \<open>Packets in the capture loop\<close>

text \<open>
  C7. A packet whose flags contain the silence bit leaves the callback's state as it was,
  whatever bytes the packet holds: whenever processing the packet completes, the buffer
  it returns is the buffer it was given.
\<close>

theorem silent_packet_never_appended:
  "flags pkt AND AUDCLNT_BUFFERFLAGS_SILENT W \<noteq> 0 \<Longrightarrow>
     process_packet W ac pkt buf = Inr buf' \<Longrightarrow> buf' = buf"
  by (auto simp: process_packet_def split: option.splits if_splits sum.splits)

theorem silent_packet_never_appended_witness:
  "flags \<lparr>data = [0x34, 0x12, 0xFF, 0x7F], numFramesAvailable = 2, flags = 0x2\<rparr>
      AND AUDCLNT_BUFFERFLAGS_SILENT windows_sdk \<noteq> 0 \<and>
   process_packet windows_sdk running_capture
      \<lparr>data = [0x34, 0x12, 0xFF, 0x7F], numFramesAvailable = 2, flags = 0x2\<rparr>
      \<lparr>m_audioBuffer = [7], m_capturedSampleRate = 16000, m_capturedChannels = 1\<rparr> =
     Inr \<lparr>m_audioBuffer = [7], m_capturedSampleRate = 16000, m_capturedChannels = 1\<rparr>"
proof -
  let ?pkt = "\<lparr>data = [0x34, 0x12, 0xFF, 0x7F], numFramesAvailable = 2, flags = 0x2\<rparr>"
  let ?buf = "\<lparr>m_audioBuffer = [7], m_capturedSampleRate = 16000, m_capturedChannels = 1\<rparr>"
  have s: "flags ?pkt AND AUDCLNT_BUFFERFLAGS_SILENT windows_sdk \<noteq> 0"
    by (simp add: windows_sdk_def)
  have b: "process_packet windows_sdk running_capture ?pkt ?buf = Inr ?buf"
    by code_simp
  from silent_packet_never_appended [OF s b] b s show ?thesis by simp
qed

text \<open>
  C10. A stream whose format tag is the extensible tag is converted by the float path,
  whatever its bit depth and sub-format are: the verbatim 16-bit copy is never taken for
  it. On an extensible 16-bit PCM descriptor, eight bytes that hold four PCM samples are
  read as two floats.
\<close>

theorem extensible_tag_takes_float_path:
  "wFormatTag fmt = WAVE_FORMAT_EXTENSIBLE W \<Longrightarrow>
     normalize_packet W fmt channels pkt =
       convert_float_packet (data pkt) (num_samples (numFramesAvailable pkt) channels)"
  by (simp add: normalize_packet_def)

theorem extensible_tag_takes_float_path_witness:
  "wFormatTag extensible_pcm16_format = WAVE_FORMAT_EXTENSIBLE windows_sdk \<and>
   normalize_packet windows_sdk extensible_pcm16_format 2
     \<lparr>data = [0x00, 0x00, 0x80, 0x3F, 0x00, 0x00, 0x80, 0xBF], numFramesAvailable = 1,
      flags = 0\<rparr> =
     Inr [32767, - 32767] \<and>
   copy_pcm_packet [0x00, 0x00, 0x80, 0x3F, 0x00, 0x00, 0x80, 0xBF] 2 = Inr [0, 0x3F80]"
proof -
  let ?pkt = "\<lparr>data = [0x00, 0x00, 0x80, 0x3F, 0x00, 0x00, 0x80, 0xBF],
               numFramesAvailable = 1, flags = 0\<rparr>"
  have t: "wFormatTag extensible_pcm16_format = WAVE_FORMAT_EXTENSIBLE windows_sdk"
    by (simp add: extensible_pcm16_format_def windows_sdk_def)
  have f: "convert_float_packet (data ?pkt) (num_samples (numFramesAvailable ?pkt) 2) =
      Inr [32767, - 32767]"
    by code_simp
  have c: "copy_pcm_packet [0x00, 0x00, 0x80, 0x3F, 0x00, 0x00, 0x80, 0xBF] 2 = Inr [0, 0x3F80]"
    by code_simp
  from extensible_tag_takes_float_path [OF t, of 2 ?pkt] f c t show ?thesis by simp
qed

section \<open>The WAV file\<close>

lemma split_bytes4:
  fixes x :: nat
  assumes "x < 4294967296"
  shows "x mod 256 + (256 * (x div 256 mod 256) +
      (65536 * (x div 65536 mod 256) + 16777216 * (x div 16777216 mod 256))) = x"
proof -
  define a where "a = x div 256"
  define b where "b = a div 256"
  define c where "c = b div 256"
  have x: "x = x mod 256 + 256 * a" by (simp add: a_def)
  have a: "a = a mod 256 + 256 * b" by (simp add: b_def)
  have b: "b = b mod 256 + 256 * c" by (simp add: c_def)
  have c: "c < 256" using assms unfolding c_def b_def a_def by simp
  have eqs: "x div 65536 = b" "x div 16777216 = c"
    by (simp_all add: a_def b_def c_def div_mult2_eq)
  have "x mod 256 + (256 * (a mod 256) + (65536 * (b mod 256) + 16777216 * (c mod 256))) = x"
    using x a b c by simp
  then show ?thesis by (simp add: eqs a_def[symmetric])
qed

lemma le_nat_le16: "le_nat (le16 w) = unat w"
proof -
  have "unat w < 65536" using unsigned_less[of w, where 'a=nat] by simp
  then show ?thesis
    by (simp add: le_nat_def le16_def unsigned_ucast_eq take_bit_eq_mod drop_bit_eq_div unat_div)
qed

lemma le_nat_le32: "le_nat (le32 w) = unat w"
proof -
  have "unat w < 4294967296" using unsigned_less[of w, where 'a=nat] by simp
  have "le_nat (le32 w) = unat w mod 256 + (256 * (unat w div 256 mod 256) +
      (65536 * (unat w div 65536 mod 256) + 16777216 * (unat w div 16777216 mod 256)))"
    by (simp add: le_nat_def le32_def unsigned_ucast_eq take_bit_eq_mod drop_bit_eq_div unat_div)
  also have "\<dots> = unat w" using \<open>unat w < 4294967296\<close> by (rule split_bytes4)
  finally show ?thesis .
qed

lemma length_le16: "length (le16 w) = 2" by (simp add: le16_def)
lemma length_le32: "length (le32 w) = 4" by (simp add: le32_def)
lemma length_tag: "length (tag s) = length s" by (simp add: tag_def)

lemma length_sample_bytes: "length (concat (map le16 xs)) = 2 * length xs"
  by (induction xs) (simp_all add: length_le16)

lemma sample_bytes_nth:
  "i < length xs \<Longrightarrow> take 2 (drop (2 * i) (concat (map le16 xs))) = le16 (xs ! i)"
proof (induction xs arbitrary: i)
  case Nil then show ?case by simp
next
  case (Cons x xs)
  show ?case
  proof (cases i)
    case 0 then show ?thesis by (simp add: length_le16)
  next
    case (Suc j)
    with Cons show ?thesis by (simp add: length_le16)
  qed
qed

lemma unat_of_nat32: "k < 2 ^ 32 \<Longrightarrow> unat (of_nat k :: 32 word) = k"
  by (simp only: unat_of_nat, simp)

text \<open>The file as a list of its fourteen pieces, with the values the four size fields hold.\<close>

lemma wav_bytes_pieces:
  assumes r: "0 \<le> r" "r < 2 ^ 31" and n: "2 * length xs + 36 < 2 ^ 32"
  obtains fileSize dataSize sampleRate byteRate :: "32 word" where
    "unat fileSize = 36 + 2 * length xs" "unat dataSize = 2 * length xs"
    "unat sampleRate = nat r" "unat byteRate = nat (2 * r)"
    "wav_bytes r xs =
       tag ''RIFF'' @ le32 fileSize @ tag ''WAVE'' @
       tag ''fmt '' @ le32 16 @ le16 1 @ le16 1 @
       le32 sampleRate @ le32 byteRate @ le16 2 @ le16 16 @
       tag ''data'' @ le32 dataSize @ concat (map le16 xs)"
proof -
  have d: "unat (of_nat (length xs * 2) :: 32 word) = 2 * length xs"
  proof -
    have "length xs * 2 < 2 ^ 32" using n by simp
    from unat_of_nat32 [OF this] show ?thesis by (simp only: mult.commute)
  qed
  have f: "unat (36 + of_nat (length xs * 2) :: 32 word) = 36 + 2 * length xs"
  proof -
    have "36 + length xs * 2 < 2 ^ 32" using n by simp
    from unat_of_nat32 [OF this] show ?thesis by (simp add: mult.commute)
  qed
  have sr: "unat (word_of_int r :: 32 word) = nat r"
    using r unat_of_nat32 [of "nat r"] by simp
  have br: "unat ((word_of_int r :: 32 word) * ucast (1 :: 16 word) * 2) = nat (2 * r)"
  proof -
    have e: "(word_of_int r :: 32 word) * ucast (1 :: 16 word) * 2 = of_nat (nat (2 * r))"
      using r by (simp add: nat_mult_distrib)
    have "nat (2 * r) < 2 ^ 32" using r by simp
    from unat_of_nat32 [OF this] show ?thesis by (simp only: e)
  qed
  have t: "take (2 * length xs) (concat (map le16 xs)) = concat (map le16 xs)"
    by (simp add: length_sample_bytes)
  have "wav_bytes r xs =
       tag ''RIFF'' @ le32 (36 + of_nat (length xs * 2)) @ tag ''WAVE'' @
       tag ''fmt '' @ le32 16 @ le16 1 @ le16 1 @
       le32 (word_of_int r) @ le32 (word_of_int r * ucast (1 :: 16 word) * 2) @
       le16 2 @ le16 16 @
       tag ''data'' @ le32 (of_nat (length xs * 2)) @ concat (map le16 xs)"
    unfolding wav_bytes_def Let_def d t by simp
  then show thesis
    by (rule that [OF f d sr br])
qed

lemmas piece_simps = length_le16 length_le32 length_tag length_sample_bytes field_def
  le_nat_le16 le_nat_le32

text \<open>
  C6. For a target rate \<open>r\<close> in the non-negative \<open>int\<close> range and \<open>n\<close> samples whose file
  size \<open>36 + 2n\<close> fits the 32-bit RIFF size field, the written file is \<open>44 + 2n\<close> bytes:
  the tag \<open>RIFF\<close>, \<open>fileSize = 36 + 2n\<close> at bytes 4-7, \<open>WAVE\<close>, the \<open>fmt \<close> sub-chunk (size
  16, format 1, one channel, sample rate \<open>r\<close>, byte rate \<open>2r\<close>, block align 2, 16 bits per
  sample), the tag \<open>data\<close>, the data size \<open>2n\<close> at bytes 40-43, and from byte 44 on the
  samples, each as two little-endian bytes.
\<close>

theorem wav_file_layout:
  assumes r: "0 \<le> r" "r < 2 ^ 31" and n: "2 * length xs + 36 < 2 ^ 32"
  shows "length (wav_bytes r xs) = 44 + 2 * length xs \<and>
     take 4 (wav_bytes r xs) = tag ''RIFF'' \<and>
     field (wav_bytes r xs) 4 4 = 36 + 2 * length xs \<and>
     take 4 (drop 8 (wav_bytes r xs)) = tag ''WAVE'' \<and>
     take 4 (drop 12 (wav_bytes r xs)) = tag ''fmt '' \<and>
     field (wav_bytes r xs) 16 4 = 16 \<and>
     field (wav_bytes r xs) 20 2 = 1 \<and>
     field (wav_bytes r xs) 22 2 = 1 \<and>
     field (wav_bytes r xs) 24 4 = nat r \<and>
     field (wav_bytes r xs) 28 4 = nat (2 * r) \<and>
     field (wav_bytes r xs) 32 2 = 2 \<and>
     field (wav_bytes r xs) 34 2 = 16 \<and>
     take 4 (drop 36 (wav_bytes r xs)) = tag ''data'' \<and>
     field (wav_bytes r xs) 40 4 = 2 * length xs \<and>
     drop 44 (wav_bytes r xs) = concat (map le16 xs) \<and>
     (\<forall>i < length xs. field (wav_bytes r xs) (44 + 2 * i) 2 = unat (xs ! i))"
proof -
  from wav_bytes_pieces [OF r n] obtain fileSize dataSize sampleRate byteRate :: "32 word"
    where u: "unat fileSize = 36 + 2 * length xs" "unat dataSize = 2 * length xs"
      "unat sampleRate = nat r" "unat byteRate = nat (2 * r)"
    and p: "wav_bytes r xs =
       tag ''RIFF'' @ le32 fileSize @ tag ''WAVE'' @
       tag ''fmt '' @ le32 16 @ le16 1 @ le16 1 @
       le32 sampleRate @ le32 byteRate @ le16 2 @ le16 16 @
       tag ''data'' @ le32 dataSize @ concat (map le16 xs)"
    by blast
  have c1: "length (wav_bytes r xs) = 44 + 2 * length xs"
    unfolding p by (simp add: piece_simps)
  have c2: "take 4 (wav_bytes r xs) = tag ''RIFF''"
    unfolding p by (simp add: piece_simps)
  have c3: "field (wav_bytes r xs) 4 4 = 36 + 2 * length xs"
    unfolding p by (simp add: piece_simps u)
  have c4: "take 4 (drop 8 (wav_bytes r xs)) = tag ''WAVE''"
    unfolding p by (simp add: piece_simps)
  have c5: "take 4 (drop 12 (wav_bytes r xs)) = tag ''fmt ''"
    unfolding p by (simp add: piece_simps)
  have c6: "field (wav_bytes r xs) 16 4 = 16"
    unfolding p by (simp add: piece_simps)
  have c7: "field (wav_bytes r xs) 20 2 = 1"
    unfolding p by (simp add: piece_simps)
  have c8: "field (wav_bytes r xs) 22 2 = 1"
    unfolding p by (simp add: piece_simps)
  have c9: "field (wav_bytes r xs) 24 4 = nat r"
    unfolding p by (simp add: piece_simps u)
  have c10: "field (wav_bytes r xs) 28 4 = nat (2 * r)"
    unfolding p by (simp add: piece_simps u)
  have c11: "field (wav_bytes r xs) 32 2 = 2"
    unfolding p by (simp add: piece_simps)
  have c12: "field (wav_bytes r xs) 34 2 = 16"
    unfolding p by (simp add: piece_simps)
  have c13: "take 4 (drop 36 (wav_bytes r xs)) = tag ''data''"
    unfolding p by (simp add: piece_simps)
  have c14: "field (wav_bytes r xs) 40 4 = 2 * length xs"
    unfolding p by (simp add: piece_simps u)
  have c15: "drop 44 (wav_bytes r xs) = concat (map le16 xs)"
    unfolding p by (simp add: piece_simps)
  have c16: "field (wav_bytes r xs) (44 + 2 * i) 2 = unat (xs ! i)" if "i < length xs" for i
  proof -
    have "take 2 (drop (44 + 2 * i) (wav_bytes r xs)) = take 2 (drop (2 * i) (drop 44 (wav_bytes r xs)))"
      by (simp add: add.commute)
    also have "\<dots> = le16 (xs ! i)"
      unfolding c15 using that by (rule sample_bytes_nth)
    finally show ?thesis by (simp add: field_def le_nat_le16)
  qed
  from c1 c2 c3 c4 c5 c6 c7 c8 c9 c10 c11 c12 c13 c14 c15 c16 show ?thesis by blast
qed

theorem wav_file_layout_witness:
  "(0 :: int) \<le> 16000 \<and> (16000 :: int) < 2 ^ 31 \<and>
   2 * length [1 :: int16, - 2] + 36 < (2 :: nat) ^ 32 \<and>
   length (wav_bytes 16000 [1, - 2]) = 48 \<and>
   field (wav_bytes 16000 [1, - 2]) 4 4 = 40 \<and>
   field (wav_bytes 16000 [1, - 2]) 24 4 = 16000 \<and>
   field (wav_bytes 16000 [1, - 2]) 28 4 = 32000 \<and>
   field (wav_bytes 16000 [1, - 2]) 40 4 = 4 \<and>
   wav_bytes 16000 [1, - 2] =
     [0x52, 0x49, 0x46, 0x46, 40, 0, 0, 0, 0x57, 0x41, 0x56, 0x45,
      0x66, 0x6D, 0x74, 0x20, 16, 0, 0, 0, 1, 0, 1, 0, 0x80, 0x3E, 0, 0, 0x00, 0x7D, 0, 0,
      2, 0, 16, 0, 0x64, 0x61, 0x74, 0x61, 4, 0, 0, 0, 1, 0, 0xFE, 0xFF]"
proof -
  have b: "wav_bytes 16000 [1, - 2] =
     [0x52, 0x49, 0x46, 0x46, 40, 0, 0, 0, 0x57, 0x41, 0x56, 0x45,
      0x66, 0x6D, 0x74, 0x20, 16, 0, 0, 0, 1, 0, 1, 0, 0x80, 0x3E, 0, 0, 0x00, 0x7D, 0, 0,
      2, 0, 16, 0, 0x64, 0x61, 0x74, 0x61, 4, 0, 0, 0, 1, 0, 0xFE, 0xFF]"
    by code_simp
  have h: "(0 :: int) \<le> 16000" "(16000 :: int) < 2 ^ 31"
    "2 * length [1 :: int16, - 2] + 36 < (2 :: nat) ^ 32" by simp_all
  from wav_file_layout [OF h] have
    "length (wav_bytes 16000 [1, - 2]) = 48 \<and>
     field (wav_bytes 16000 [1, - 2]) 4 4 = 40 \<and>
     field (wav_bytes 16000 [1, - 2]) 24 4 = 16000 \<and>
     field (wav_bytes 16000 [1, - 2]) 28 4 = 32000 \<and>
     field (wav_bytes 16000 [1, - 2]) 40 4 = 4"
    by simp
  with h b show ?thesis by blast
qed

section \<open>Faults of the capture session\<close>

lemma capture_object_unchanged:
  "(CaptureThread W script (st :: 'b AudioCapture \<times> 'b) = Exited st' \<longrightarrow> fst st' = fst st)"
  "(drain W packetLength script2 (st2 :: 'b AudioCapture \<times> 'b) = Exited st2' \<longrightarrow> fst st2' = fst st2)"
proof (induction W script st and W packetLength script2 st2 arbitrary: st' and st2'
    rule: CaptureThread_drain.induct)
  case (1 W script st)
  show ?case
  proof
    assume run: "CaptureThread W script st = Exited st'"
    show "fst st' = fst st"
    proof (cases "\<exists>hr len rest. script = IsCapturing True # GetNextPacketSize hr len # rest \<and> \<not> FAILED W hr")
      case True
      then obtain hr len rest where
        s: "script = IsCapturing True # GetNextPacketSize hr len # rest" and ok: "\<not> FAILED W hr"
        by blast
      from run s ok have "drain W len rest st = Exited st'"
        by (simp add: CaptureThread.simps)
      with "1.IH" [of "IsCapturing True" "GetNextPacketSize hr len # rest" True
          "GetNextPacketSize hr len" rest hr len st'] s ok
      show ?thesis by simp
    next
      case False
      with run have "st' = st"
        by (subst (asm) CaptureThread.simps) (auto split: list.splits event.splits if_splits)
      then show ?thesis by simp
    qed
  qed
next
  case (2 W packetLength script st)
  show ?case
  proof
    assume run: "drain W packetLength script st = Exited st2'"
    from run consider
      (empty) "packetLength = 0" "CaptureThread W script st = Exited st2'"
    | (get) hr pkt rest where "packetLength \<noteq> 0" "script = GetBuffer hr pkt # rest"
        "FAILED W hr" "CaptureThread W rest st = Exited st2'"
    | (release) hr pkt buf hr2 rest where "packetLength \<noteq> 0"
        "script = GetBuffer hr pkt # ReleaseBuffer hr2 # rest" "\<not> FAILED W hr"
        "process_packet W (fst st) pkt (snd st) = Inr buf" "FAILED W hr2"
        "CaptureThread W rest (fst st, buf) = Exited st2'"
    | (size) hr pkt buf hr2 hr3 len rest where "packetLength \<noteq> 0"
        "script = GetBuffer hr pkt # ReleaseBuffer hr2 # GetNextPacketSize hr3 len # rest"
        "\<not> FAILED W hr" "process_packet W (fst st) pkt (snd st) = Inr buf" "\<not> FAILED W hr2"
        "FAILED W hr3" "CaptureThread W rest (fst st, buf) = Exited st2'"
    | (more) hr pkt buf hr2 hr3 len rest where "packetLength \<noteq> 0"
        "script = GetBuffer hr pkt # ReleaseBuffer hr2 # GetNextPacketSize hr3 len # rest"
        "\<not> FAILED W hr" "process_packet W (fst st) pkt (snd st) = Inr buf" "\<not> FAILED W hr2"
        "\<not> FAILED W hr3" "drain W len rest (fst st, buf) = Exited st2'"
      by (subst (asm) drain.simps) (auto split: list.splits event.splits if_splits sum.splits)
    then show "fst st2' = fst st"
    proof cases
      case empty
      with "2.IH"(1) [of st2'] show ?thesis by simp
    next
      case get
      with "2.IH"(2) [OF get(1,2) refl get(3), of st2'] show ?thesis by simp
    next
      case release
      with "2.IH"(3) [OF release(1,2) refl release(3,4) refl refl release(5), of st2']
      show ?thesis by simp
    next
      case size
      with "2.IH"(4) [OF size(1,2) refl size(3,4) refl refl size(5) refl refl size(6), of st2']
      show ?thesis by simp
    next
      case more
      with "2.IH"(5) [OF more(1,2) refl more(3,4) refl refl more(5) refl refl more(6), of st2']
      show ?thesis by simp
    qed
  qed
qed

text \<open>The two loops, one step at a time.\<close>

lemma CaptureThread_Nil: "CaptureThread W [] st = StillRunning st"
  by (subst CaptureThread.simps) simp

lemma CaptureThread_Cons:
  "CaptureThread W (e # script1) st =
     (case e of
        IsCapturing running \<Rightarrow>
          if \<not> running then Exited st
          else (case script1 of
                  GetNextPacketSize hr packetLength # script2 \<Rightarrow>
                    if FAILED W hr then Exited st else drain W packetLength script2 st
                | _ \<Rightarrow> StillRunning st)
      | _ \<Rightarrow> StillRunning st)"
  by (subst CaptureThread.simps) simp

lemma drain_0: "drain W 0 script st = CaptureThread W script st"
  by (subst drain.simps) simp

lemma drain_Nil: "packetLength \<noteq> 0 \<Longrightarrow> drain W packetLength [] st = StillRunning st"
  by (subst drain.simps) simp

lemma drain_Cons:
  "packetLength \<noteq> 0 \<Longrightarrow> drain W packetLength (e # script1) st =
     (case e of
        GetBuffer hr pkt \<Rightarrow>
          if FAILED W hr then CaptureThread W script1 st
          else (case process_packet W (fst st) pkt (snd st) of
                  Inl e \<Rightarrow> Faulted e
                | Inr buf \<Rightarrow>
                    (case script1 of
                       ReleaseBuffer hr2 # script2 \<Rightarrow>
                         if FAILED W hr2 then CaptureThread W script2 (fst st, buf)
                         else (case script2 of
                                 GetNextPacketSize hr3 packetLength' # script3 \<Rightarrow>
                                   if FAILED W hr3 then CaptureThread W script3 (fst st, buf)
                                   else drain W packetLength' script3 (fst st, buf)
                               | _ \<Rightarrow> StillRunning (fst st, buf))
                     | _ \<Rightarrow> StillRunning (fst st, buf)))
      | _ \<Rightarrow> StillRunning st)"
  by (subst drain.simps) simp

lemmas loop_unfold = CaptureThread_Nil CaptureThread_Cons drain_0 drain_Nil drain_Cons

text \<open>
  Wherever a run would end because \<open>m_isCapturing\<close> was found cleared, a failed poll for the
  packet size ends it too, in the same state. The events before that point are arbitrary:
  packets retrieved, silent packets, failed \<open>GetBuffer\<close> and \<open>ReleaseBuffer\<close> calls.
\<close>

lemma failed_poll_exits_where_stop_would:
  fixes st st1 :: "'b AudioCapture \<times> 'b"
  assumes f: "FAILED W hr"
  shows "(CaptureThread W (pre @ [IsCapturing False]) st = Exited st1 \<longrightarrow>
            CaptureThread W (pre @ IsCapturing True # GetNextPacketSize hr n # rest) st = Exited st1) \<and>
         (drain W len (pre @ [IsCapturing False]) st = Exited st1 \<longrightarrow>
            drain W len (pre @ IsCapturing True # GetNextPacketSize hr n # rest) st = Exited st1)"
proof (induction "length pre" arbitrary: pre st len rule: less_induct)
  case less
  let ?t1 = "[IsCapturing False]"
  let ?t2 = "IsCapturing True # GetNextPacketSize hr n # rest"
  have IH_A: "CaptureThread W (p @ ?t2) s = Exited st1"
    if "length p < length pre" "CaptureThread W (p @ ?t1) s = Exited st1" for p s
    using less [OF that(1), of s 0] that(2) by blast
  have IH_B: "drain W l (p @ ?t2) s = Exited st1"
    if "length p < length pre" "drain W l (p @ ?t1) s = Exited st1" for p s l
    using less [OF that(1), of s l] that(2) by blast
  have A: "CaptureThread W (pre @ ?t2) s = Exited st1"
    if run: "CaptureThread W (pre @ ?t1) s = Exited st1" for s
  proof (cases pre)
    case Nil
    with run f show ?thesis by (simp add: loop_unfold)
  next
    case c1: (Cons e pre1)
    show ?thesis
    proof (cases pre1)
      case Nil
      with run c1 f show ?thesis by (cases e) (auto simp: loop_unfold split: if_splits)
    next
      case c2: (Cons e1 pre2)
      have l: "length pre2 < length pre" by (simp add: c1 c2)
      from run f show ?thesis unfolding c1 c2
        by (cases e; cases e1) (auto simp: loop_unfold c1 c2 split: if_splits intro: IH_B [OF l])
    qed
  qed
  have B: "drain W len (pre @ ?t2) st = Exited st1"
    if run: "drain W len (pre @ ?t1) st = Exited st1"
  proof (cases "len = 0")
    case True
    with run A [of st] show ?thesis by (simp add: loop_unfold)
  next
    case nz: False
    from run nz consider
      (get) hr1 pkt pre1 where "pre = GetBuffer hr1 pkt # pre1" "FAILED W hr1"
        "CaptureThread W (pre1 @ ?t1) st = Exited st1"
    | (release) hr1 pkt buf hr2 pre2 where
        "pre = GetBuffer hr1 pkt # ReleaseBuffer hr2 # pre2" "\<not> FAILED W hr1"
        "process_packet W (fst st) pkt (snd st) = Inr buf" "FAILED W hr2"
        "CaptureThread W (pre2 @ ?t1) (fst st, buf) = Exited st1"
    | (size) hr1 pkt buf hr2 hr3 l3 pre3 where
        "pre = GetBuffer hr1 pkt # ReleaseBuffer hr2 # GetNextPacketSize hr3 l3 # pre3"
        "\<not> FAILED W hr1" "process_packet W (fst st) pkt (snd st) = Inr buf"
        "\<not> FAILED W hr2" "FAILED W hr3"
        "CaptureThread W (pre3 @ ?t1) (fst st, buf) = Exited st1"
    | (more) hr1 pkt buf hr2 hr3 l3 pre3 where
        "pre = GetBuffer hr1 pkt # ReleaseBuffer hr2 # GetNextPacketSize hr3 l3 # pre3"
        "\<not> FAILED W hr1" "process_packet W (fst st) pkt (snd st) = Inr buf"
        "\<not> FAILED W hr2" "\<not> FAILED W hr3"
        "drain W l3 (pre3 @ ?t1) (fst st, buf) = Exited st1"
    proof (cases pre)
      case Nil
      with run nz show ?thesis by (simp add: drain_Cons)
    next
      case c1: (Cons e pre1)
      show ?thesis
      proof (cases pre1)
        case Nil
        with run nz c1 get show ?thesis
          by (cases e) (auto simp: drain_Cons split: if_splits sum.splits)
      next
        case c2: (Cons e1 pre2)
        show ?thesis
        proof (cases pre2)
          case Nil
          with run nz c1 c2 get release show ?thesis
            by (cases e; cases e1) (auto simp: drain_Cons split: if_splits sum.splits)
        next
          case c3: (Cons e2 pre3)
          with run nz c1 c2 get release size more show ?thesis
            by (cases e; cases e1; cases e2) (auto simp: drain_Cons split: if_splits sum.splits)
        qed
      qed
    qed
    then show ?thesis
    proof cases
      case get
      have "length pre1 < length pre" by (simp add: get(1))
      from IH_A [OF this get(3)] show ?thesis by (simp add: get(1,2) drain_Cons nz)
    next
      case release
      have "length pre2 < length pre" by (simp add: release(1))
      from IH_A [OF this release(5)] show ?thesis
        by (simp add: release(1,2,3,4) drain_Cons nz)
    next
      case size
      have "length pre3 < length pre" by (simp add: size(1))
      from IH_A [OF this size(6)] show ?thesis
        by (simp add: size(1,2,3,4,5) drain_Cons nz)
    next
      case more
      have "length pre3 < length pre" by (simp add: more(1))
      from IH_B [OF this more(6)] show ?thesis
        by (simp add: more(1,2,3,4,5) drain_Cons nz)
    qed
  qed
  from A B show ?case by blast
qed

text \<open>
  C8, as the code has it. When the poll for the next packet size at the head of the
  capture loop fails, the thread function returns at once, whatever the environment
  would have answered afterwards. This holds in every polling cycle, not only the first:
  after any events \<open>pre\<close>, if the thread is at the head of its loop, so that a cleared
  \<open>m_isCapturing\<close> would make it return in state \<open>st1\<close>, then a failed poll makes it return
  in that same state \<open>st1\<close>. Whenever the thread function returns, the capture object is
  as it was: in particular \<open>m_lastError\<close> holds no trace of the fault, and \<open>m_isCapturing\<close>
  is not reset.
\<close>

theorem poll_failure_ends_capture_thread:
  "(FAILED W hr \<longrightarrow>
      CaptureThread W (IsCapturing True # GetNextPacketSize hr n # rest) st = Exited st) \<and>
   (FAILED W hr \<longrightarrow>
      CaptureThread W (pre @ [IsCapturing False]) st = Exited st1 \<longrightarrow>
      CaptureThread W (pre @ IsCapturing True # GetNextPacketSize hr n # rest) st = Exited st1) \<and>
   (CaptureThread W script st = Exited st' \<longrightarrow>
      m_lastError (fst st') = m_lastError (fst st) \<and>
      m_isCapturing (fst st') = m_isCapturing (fst st))"
  using capture_object_unchanged(1) [of W script st st']
    failed_poll_exits_where_stop_would [of W hr pre st st1 n rest]
  by (simp add: CaptureThread_Cons)

theorem poll_failure_ends_capture_thread_witness:
  "FAILED windows_sdk 0x88890004 \<and>
   CaptureThread windows_sdk (polling_cycle @ [IsCapturing False])
     (running_capture, holding [7]) = Exited (running_capture, holding [7, 0x1234]) \<and>
   CaptureThread windows_sdk
     (polling_cycle @ IsCapturing True # GetNextPacketSize 0x88890004 1 # polling_cycle @
        [IsCapturing False])
     (running_capture, holding [7]) = Exited (running_capture, holding [7, 0x1234]) \<and>
   (case CaptureThread windows_sdk
        (polling_cycle @ IsCapturing True # GetNextPacketSize 0x88890004 1 # polling_cycle @
           [IsCapturing False])
        (running_capture, holding [7]) of
      Exited (ac, buf) \<Rightarrow>
        m_audioBuffer buf = [7, 0x1234] \<and> m_lastError ac = [] \<and> m_isCapturing ac
    | _ \<Rightarrow> False)"
proof -
  let ?st = "(running_capture, holding [7])"
  let ?st1 = "(running_capture, holding [7, 0x1234])"
  let ?rest = "polling_cycle @ [IsCapturing False]"
  let ?script = "polling_cycle @ IsCapturing True # GetNextPacketSize 0x88890004 1 # ?rest"
  have f: "FAILED windows_sdk 0x88890004" by (simp add: windows_sdk_def)
  have ok: "\<not> FAILED windows_sdk 0" by (simp add: windows_sdk_def)
  have p: "process_packet windows_sdk running_capture pcm_packet (holding [7]) =
      Inr (holding [7, 0x1234])"
    by code_simp
  have stop: "CaptureThread windows_sdk (polling_cycle @ [IsCapturing False]) ?st = Exited ?st1"
    by (simp add: polling_cycle_def loop_unfold ok p)
  have before: "m_lastError (fst ?st) = [] \<and> m_isCapturing (fst ?st)"
    by (simp add: running_capture_def)
  note t = poll_failure_ends_capture_thread
    [of windows_sdk "0x88890004" 1 ?rest ?st polling_cycle ?st1 ?script]
  from t f stop have run: "CaptureThread windows_sdk ?script ?st = Exited ?st1" by blast
  obtain ac buf where r: "CaptureThread windows_sdk ?script ?st = Exited (ac, buf)"
    using run by blast
  from t [of "(ac, buf)"] r before have "m_lastError ac = [] \<and> m_isCapturing ac" by simp
  moreover from r run have "m_audioBuffer buf = [7, 0x1234]" by (simp add: holding_def)
  ultimately have "case CaptureThread windows_sdk ?script ?st of
      Exited (ac, buf) \<Rightarrow>
        m_audioBuffer buf = [7, 0x1234] \<and> m_lastError ac = [] \<and> m_isCapturing ac
    | _ \<Rightarrow> False"
    by (simp add: r)
  with f stop run show ?thesis by blast
qed

text \<open>
  C8 as stated fails. Here \<open>GetBuffer\<close> fails with \<open>AUDCLNT_E_DEVICE_INVALIDATED\<close>; the
  thread goes back to the head of its loop, polls again, retrieves the next packet and
  appends its sample. Then \<open>ReleaseBuffer\<close> fails, and again the thread only returns
  because \<open>m_isCapturing\<close> was cleared from outside. At the end the error message is
  still empty.
\<close>

theorem streaming_fault_counterexample:
  "(case CaptureThread windows_sdk
        [IsCapturing True, GetNextPacketSize 0 1,
         GetBuffer 0x88890004 \<lparr>data = [], numFramesAvailable = 0, flags = 0\<rparr>,
         IsCapturing True, GetNextPacketSize 0 1,
         GetBuffer 0 \<lparr>data = [0x34, 0x12], numFramesAvailable = 1, flags = 0\<rparr>,
         ReleaseBuffer 0x88890004, IsCapturing False]
        (running_capture, \<lparr>m_audioBuffer = [], m_capturedSampleRate = 0, m_capturedChannels = 0\<rparr>) of
      Exited (ac, buf) \<Rightarrow> m_audioBuffer buf = [0x1234] \<and> m_lastError ac = [] \<and> m_isCapturing ac
    | _ \<Rightarrow> False)"
  by code_simp

section \<open>Rounding to a binary floating-point format\<close>

text \<open>
  Error bounds for \<open>fl_round\<close>: half a unit in the last place, the relative bound in the
  normal range, and exactness on integers that fit the significand.
\<close>

lemma powi2_le_iff: "(2 :: rat) powi m \<le> 2 powi n \<longleftrightarrow> m \<le> n"
proof
  assume "(2 :: rat) powi m \<le> 2 powi n"
  show "m \<le> n"
  proof (rule ccontr)
    assume "\<not> m \<le> n"
    then have "n < m" by simp
    then have "(2 :: rat) powi n < 2 powi m" by (intro power_int_strict_increasing) simp_all
    with \<open>(2 :: rat) powi m \<le> 2 powi n\<close> show False by simp
  qed
next
  assume "m \<le> n"
  then show "(2 :: rat) powi m \<le> 2 powi n" by (intro power_int_increasing) simp_all
qed

lemma powi2_less_iff: "(2 :: rat) powi m < 2 powi n \<longleftrightarrow> m < n"
  using powi2_le_iff [of n m] by (simp add: not_le [symmetric])

lemma bitlen_powi_bounds:
  assumes "0 < k"
  shows "2 powi (bitlen k - 1) \<le> (of_int k :: rat)" "(of_int k :: rat) < 2 powi (bitlen k)"
proof -
  from bitlen_bounds [OF assms] have b: "2 ^ nat (bitlen k - 1) \<le> k" "k < 2 ^ nat (bitlen k)"
    by simp_all
  have pos: "1 \<le> bitlen k" using assms by (simp add: bitlen_alt_def)
  have "(2 :: rat) powi (bitlen k - 1) = 2 ^ nat (bitlen k - 1)"
    using pos by (simp add: power_int_def)
  also have "\<dots> = of_int (2 ^ nat (bitlen k - 1))" by simp
  also have "\<dots> \<le> of_int k" using b(1) by (simp only: of_int_le_iff)
  finally show "2 powi (bitlen k - 1) \<le> (of_int k :: rat)" .
  have "(of_int k :: rat) < of_int (2 ^ nat (bitlen k))" using b(2) by (simp only: of_int_less_iff)
  also have "\<dots> = 2 ^ nat (bitlen k)" by simp
  also have "\<dots> = 2 powi (bitlen k)" using pos by (simp add: power_int_def)
  finally show "(of_int k :: rat) < 2 powi (bitlen k)" .
qed

lemma ilog2_bounds:
  assumes "x \<noteq> 0"
  shows "2 powi (ilog2 x) \<le> \<bar>x\<bar>" "\<bar>x\<bar> < 2 powi (ilog2 x + 1)"
proof -
  obtain p q where pq: "quotient_of \<bar>x\<bar> = (p, q)" by (cases "quotient_of \<bar>x\<bar>")
  have q: "0 < q" using pq by (rule quotient_of_denom_pos)
  have x: "\<bar>x\<bar> = of_int p / of_int q" using pq by (rule quotient_of_div)
  have "0 < \<bar>x\<bar>" using assms by simp
  then have p: "0 < p" using q unfolding x by (simp add: zero_less_divide_iff)
  define d where "d = bitlen p - bitlen q"
  have qr: "(0 :: rat) < of_int q" using q by simp
  have up: "\<bar>x\<bar> < 2 powi (d + 1)"
  proof -
    have "of_int p < (2 :: rat) powi (bitlen p)" using p by (rule bitlen_powi_bounds)
    also have "\<dots> = 2 powi (d + 1) * 2 powi (bitlen q - 1)"
      by (simp add: d_def flip: power_int_add)
    also have "\<dots> \<le> 2 powi (d + 1) * of_int q"
      using bitlen_powi_bounds(1) [OF q] by (intro mult_left_mono) simp_all
    finally show ?thesis unfolding x using qr by (simp add: pos_divide_less_eq)
  qed
  have lo: "2 powi (d - 1) \<le> \<bar>x\<bar>"
  proof -
    have "2 powi (d - 1) * (of_int q :: rat) \<le> 2 powi (d - 1) * 2 powi (bitlen q)"
      using bitlen_powi_bounds(2) [OF q] by (intro mult_left_mono) simp_all
    also have "\<dots> = 2 powi (bitlen p - 1)"
      by (simp add: d_def flip: power_int_add)
    also have "\<dots> \<le> of_int p" using p by (rule bitlen_powi_bounds)
    finally show ?thesis unfolding x using qr by (simp add: pos_le_divide_eq)
  qed
  have il: "ilog2 x = (if 2 powi d \<le> \<bar>x\<bar> then d else d - 1)"
    by (simp add: ilog2_def pq d_def Let_def)
  show "2 powi (ilog2 x) \<le> \<bar>x\<bar>" using lo by (simp add: il)
  show "\<bar>x\<bar> < 2 powi (ilog2 x + 1)" using up by (auto simp: il)
qed

lemma round_half_even_error: "\<bar>of_int (round_half_even z) - z\<bar> \<le> 1 / 2"
proof -
  have "of_int \<lfloor>z\<rfloor> \<le> z" "z < of_int \<lfloor>z\<rfloor> + 1" by linarith+
  then show ?thesis by (auto simp: round_half_even_def Let_def)
qed

lemma round_half_even_of_int: "round_half_even (of_int k) = k"
  by (simp add: round_half_even_def)

lemma fl_round_0: "fl_round p emin 0 = 0"
  by (simp add: fl_round_def)

lemma fl_round_half_ulp:
  assumes "x \<noteq> 0"
  shows "\<bar>fl_round p emin x - x\<bar> \<le> 2 powi (max (ilog2 x) emin - int p)"
proof -
  define e where "e = max (ilog2 x) emin"
  define ulp :: rat where "ulp = 2 powi (e - int p + 1)"
  have ulp: "0 < ulp" by (simp add: ulp_def)
  have f: "fl_round p emin x = of_int (round_half_even (x / ulp)) * ulp"
    using assms by (simp add: fl_round_def Let_def e_def ulp_def)
  have "fl_round p emin x - x = (of_int (round_half_even (x / ulp)) - x / ulp) * ulp"
    using ulp by (simp add: f field_simps)
  then have "\<bar>fl_round p emin x - x\<bar> = \<bar>of_int (round_half_even (x / ulp)) - x / ulp\<bar> * ulp"
    using ulp by (simp add: abs_mult)
  also have "\<dots> \<le> 1 / 2 * ulp"
    using round_half_even_error [of "x / ulp"] ulp by (intro mult_right_mono) simp_all
  also have "\<dots> = 2 powi (e - int p)"
    by (simp add: ulp_def power_int_add)
  finally show ?thesis by (simp add: e_def)
qed

text \<open>Relative error in the normal range.\<close>

lemma fl_round_relative:
  assumes "2 powi emin \<le> \<bar>x\<bar>"
  shows "\<bar>fl_round p emin x - x\<bar> \<le> \<bar>x\<bar> / 2 ^ p"
proof -
  have "(0 :: rat) < 2 powi emin" by simp
  from this assms have "0 < \<bar>x\<bar>" by (rule less_le_trans)
  then have nz: "x \<noteq> 0" by simp
  have "(2 :: rat) powi emin < 2 powi (ilog2 x + 1)"
    using assms ilog2_bounds(2) [OF nz] by simp
  then have "emin < ilog2 x + 1" by (simp only: powi2_less_iff)
  then have m: "max (ilog2 x) emin = ilog2 x" by simp
  have "\<bar>fl_round p emin x - x\<bar> \<le> 2 powi (ilog2 x - int p)"
    using fl_round_half_ulp [OF nz, of p emin] by (simp add: m)
  also have "\<dots> = 2 powi (ilog2 x) / 2 ^ p"
    by (simp add: power_int_diff)
  also have "\<dots> \<le> \<bar>x\<bar> / 2 ^ p"
    using ilog2_bounds(1) [OF nz] by (simp add: divide_right_mono)
  finally show ?thesis .
qed

text \<open>Absolute error below a power of two.\<close>

lemma fl_round_absolute:
  assumes "\<bar>x\<bar> \<le> 2 powi k" "emin \<le> k"
  shows "\<bar>fl_round p emin x - x\<bar> \<le> 2 powi (k - int p)"
proof (cases "x = 0")
  case True
  then show ?thesis by (simp add: fl_round_0)
next
  case False
  have "(2 :: rat) powi (ilog2 x) \<le> 2 powi k"
    using ilog2_bounds(1) [OF False] assms(1) by simp
  then have "ilog2 x \<le> k" by (simp only: powi2_le_iff)
  then have "max (ilog2 x) emin - int p \<le> k - int p" using assms(2) by simp
  then have "(2 :: rat) powi (max (ilog2 x) emin - int p) \<le> 2 powi (k - int p)"
    by (intro power_int_increasing) simp_all
  with fl_round_half_ulp [OF False, of p emin] show ?thesis by simp
qed

lemma fl_round_of_int:
  assumes m: "\<bar>m\<bar> \<le> 2 ^ p" and emin: "emin \<le> 0" and p: "0 < p"
  shows "fl_round p emin (of_int m) = of_int m"
proof (cases "m = 0")
  case True
  then show ?thesis by (simp add: fl_round_0)
next
  case False
  define x :: rat where "x = of_int m"
  define l where "l = ilog2 x"
  have nz: "x \<noteq> 0" using False by (simp add: x_def)
  have ax: "\<bar>x\<bar> = of_int \<bar>m\<bar>" by (simp add: x_def)
  have "1 \<le> \<bar>m\<bar>" using False by linarith
  then have "(of_int 1 :: rat) \<le> of_int \<bar>m\<bar>" by (simp only: of_int_le_iff)
  then have one: "1 \<le> \<bar>x\<bar>" unfolding ax by simp
  have top: "\<bar>x\<bar> \<le> 2 powi (int p)" unfolding ax using m
    by (metis of_int_le_iff of_int_numeral of_int_power power_int_of_nat)
  have "(2 :: rat) powi 0 < 2 powi (l + 1)"
    using one ilog2_bounds(2) [OF nz] by (simp add: l_def)
  then have "0 < l + 1" by (simp only: powi2_less_iff)
  then have l0: "0 \<le> l" by simp
  have "(2 :: rat) powi l \<le> 2 powi (int p)"
    using ilog2_bounds(1) [OF nz] top by (simp add: l_def)
  then have lp: "l \<le> int p" by (simp only: powi2_le_iff)
  have e: "max (ilog2 x) emin = l" using l0 emin by (simp add: l_def)
  have f: "fl_round p emin x =
      of_int (round_half_even (x / 2 powi (l - int p + 1))) * 2 powi (l - int p + 1)"
    using nz by (simp add: fl_round_def Let_def e)
  show ?thesis
  proof (cases "l < int p")
    case True
    define j where "j = nat (int p - 1 - l)"
    have u: "(2 :: rat) powi (l - int p + 1) = 1 / 2 ^ j"
    proof -
      have "l - int p + 1 = - int j" using True by (simp add: j_def)
      then show ?thesis by (simp add: power_int_minus_divide)
    qed
    have "x / (1 / 2 ^ j) = of_int (m * 2 ^ j)" by (simp add: x_def)
    then have "fl_round p emin x = of_int (m * 2 ^ j) * (1 / 2 ^ j)"
      unfolding f u by (simp only: round_half_even_of_int)
    then show ?thesis by (simp add: x_def)
  next
    case False
    with lp have lpe: "l = int p" by simp
    have "(2 :: rat) powi l \<le> \<bar>x\<bar>" using ilog2_bounds(1) [OF nz] by (simp add: l_def)
    then have "(2 :: rat) powi (int p) \<le> \<bar>x\<bar>" by (simp only: lpe)
    with top have "\<bar>x\<bar> = 2 ^ p" by simp
    then have am: "\<bar>m\<bar> = 2 ^ p" unfolding ax
      by (metis of_int_eq_iff of_int_numeral of_int_power)
    obtain q where q: "p = Suc q" using p by (cases p) simp_all
    have "2 dvd \<bar>m\<bar>" unfolding am q by simp
    then have "2 dvd m" by simp
    then have ev: "m = 2 * (m div 2)" by simp
    have "x / 2 = of_int (m div 2)"
    proof -
      have "x = of_int (2 * (m div 2))" unfolding x_def using ev by simp
      then show ?thesis by simp
    qed
    then have "fl_round p emin x = of_int (m div 2) * 2"
      unfolding f lpe by (simp add: round_half_even_of_int)
    also have "\<dots> = of_int (2 * (m div 2))" by simp
    also have "\<dots> = x" unfolding x_def using ev by simp
    finally show ?thesis by (simp add: x_def)
  qed
qed

lemma fl_round_of_nat:
  assumes "n \<le> 2 ^ p" "emin \<le> 0" "0 < p"
  shows "fl_round p emin (of_nat n) = of_nat n"
proof -
  have "\<bar>int n\<bar> \<le> 2 ^ p" using assms(1) by (metis abs_of_nat of_nat_le_iff of_nat_numeral of_nat_power)
  from fl_round_of_int [OF this assms(2,3)] show ?thesis by simp
qed

lemma fl64_relative:
  assumes "1 / 2 ^ 64 \<le> \<bar>x\<bar>"
  shows "\<bar>fl64 x - x\<bar> \<le> \<bar>x\<bar> / 2 ^ 53"
proof -
  have "(- 1022 :: int) \<le> - 64" by simp
  then have "(2 :: rat) powi (- 1022) \<le> 2 powi (- 64)" by (simp only: powi2_le_iff)
  also have "\<dots> = 1 / 2 ^ 64" by (simp add: power_int_minus_divide)
  finally have "2 powi (- 1022) \<le> \<bar>x\<bar>" using assms by simp
  then show ?thesis unfolding fl64_def by (rule fl_round_relative)
qed

lemma fl64_absolute:
  assumes "\<bar>x\<bar> \<le> 2 ^ k"
  shows "\<bar>fl64 x - x\<bar> \<le> 2 ^ k / 2 ^ 53"
proof -
  have "\<bar>x\<bar> \<le> 2 powi (int k)" using assms by simp
  from fl_round_absolute [OF this, of "- 1022" 53]
  have "\<bar>fl64 x - x\<bar> \<le> 2 powi (int k - 53)" by (simp add: fl64_def)
  then show ?thesis by (simp add: power_int_diff)
qed

lemma fl64_of_nat: "n \<le> 2 ^ 53 \<Longrightarrow> fl64 (of_nat n) = of_nat n"
  unfolding fl64_def by (rule fl_round_of_nat) simp_all

lemma fl64_of_int: "\<bar>m\<bar> \<le> 2 ^ 53 \<Longrightarrow> fl64 (of_int m) = of_int m"
  unfolding fl64_def by (rule fl_round_of_int) simp_all

lemma fl64_0: "fl64 0 = 0"
  by (simp add: fl64_def fl_round_0)

text \<open>Two-sided bounds in terms of the unit roundoff.\<close>

lemma u64_pos: "0 < u64"
  by (simp add: u64_def)

lemma u64_small: "u64 \<le> 1 / 2 ^ 20"
  by (simp add: u64_def)

lemma fl64_two_sided:
  assumes "1 / 2 ^ 64 \<le> x"
  shows "x * (1 - u64) \<le> fl64 x" "fl64 x \<le> x * (1 + u64)"
proof -
  have x: "0 < x" using assms by (rule less_le_trans [rotated]) simp
  then have "1 / 2 ^ 64 \<le> \<bar>x\<bar>" using assms by simp
  from fl64_relative [OF this] x have "\<bar>fl64 x - x\<bar> \<le> x * u64" by (simp add: u64_def)
  then show "x * (1 - u64) \<le> fl64 x" "fl64 x \<le> x * (1 + u64)"
    by (simp_all add: algebra_simps abs_le_iff)
qed

section \<open>The sample normaliser\<close>

lemma clamp_sample_eq: "x \<noteq> NaN \<Longrightarrow> clamp_sample x = Finite (clamp_unit x)"
  by (cases x) (auto simp: clamp_sample_def clamp_unit_def Let_def)

lemma clamp_unit_range: "\<bar>clamp_unit x\<bar> \<le> 1"
  by (cases x) (auto simp: clamp_unit_def)

lemma fl32_scaled_bound:
  assumes "\<bar>v\<bar> \<le> 1"
  shows "\<bar>fl32 (v * 32767)\<bar> < 32768"
proof -
  have a: "\<bar>v * 32767\<bar> \<le> 32767" using assms by (simp add: abs_mult)
  then have "\<bar>v * 32767\<bar> \<le> 2 powi 15" by simp
  from fl_round_absolute [OF this, of "- 126" 24]
  have "\<bar>fl32 (v * 32767) - v * 32767\<bar> \<le> 2 powi (- 9)" by (simp add: fl32_def)
  then have "\<bar>fl32 (v * 32767) - v * 32767\<bar> \<le> 1 / 512" by (simp add: power_int_minus_divide)
  with a show ?thesis by linarith
qed

lemma trunc_toward_zero_bound:
  assumes "\<bar>y\<bar> < of_int n"
  shows "- n < trunc_toward_zero y" "trunc_toward_zero y < n"
proof -
  have "(0 :: rat) < of_int n" using assms by linarith
  then have n: "0 < n" by simp
  show "- n < trunc_toward_zero y"
  proof (cases "0 \<le> y")
    case True
    then have "0 \<le> \<lfloor>y\<rfloor>" by simp
    with n have "- n < \<lfloor>y\<rfloor>" by linarith
    with True show ?thesis by (simp add: trunc_toward_zero_def)
  next
    case False
    have "of_int (- n) < y" using assms False by simp
    then have "- n < \<lceil>y\<rceil>" by (simp only: less_ceiling_iff)
    with False show ?thesis by (simp add: trunc_toward_zero_def)
  qed
  show "trunc_toward_zero y < n"
  proof (cases "0 \<le> y")
    case True
    have "y < of_int n" using assms True by simp
    then have "\<lfloor>y\<rfloor> < n" by (simp only: floor_less_iff)
    with True show ?thesis by (simp add: trunc_toward_zero_def)
  next
    case False
    then have "\<lceil>y\<rceil> \<le> 0" by (simp add: ceiling_le_iff)
    with n have "\<lceil>y\<rceil> < n" by linarith
    with False show ?thesis by (simp add: trunc_toward_zero_def)
  qed
qed

lemma sint_int16_of_int:
  "- 32768 \<le> k \<Longrightarrow> k \<le> 32767 \<Longrightarrow> sint (word_of_int k :: int16) = k"
  by (simp add: sint_sbintrunc' signed_take_bit_int_eq_self)

text \<open>
  C2, as the code has it. For every input sample other than a NaN the normaliser returns
  a 16-bit value, and that value is \<open>clamp_and_scale\<close> of the sample: the sample clamped to
  \<open>[-1, 1]\<close>, multiplied by 32767 in single precision and truncated toward zero. The result
  lies between -32767 and 32767, so the cast to \<open>int16_t\<close> is defined. For a NaN both
  comparisons of the clamp are false and the NaN itself reaches the cast.
\<close>

theorem float_to_pcm_clamp_scale:
  assumes "x \<noteq> NaN"
  shows "\<exists>s. float_to_pcm x = Inr s \<and> sint s = clamp_and_scale x \<and>
             - 32767 \<le> sint s \<and> sint s \<le> 32767"
proof -
  have "\<bar>fl32 (clamp_unit x * 32767)\<bar> < of_int 32768"
    using fl32_scaled_bound [OF clamp_unit_range [of x]] by simp
  from trunc_toward_zero_bound [OF this]
  have r: "- 32767 \<le> clamp_and_scale x" "clamp_and_scale x \<le> 32767"
    by (simp_all add: clamp_and_scale_def)
  then have s: "sint (word_of_int (clamp_and_scale x) :: int16) = clamp_and_scale x"
    by (intro sint_int16_of_int) simp_all
  have "float_to_pcm x = Inr (word_of_int (clamp_and_scale x))"
    using r by (simp add: float_to_pcm_def clamp_sample_eq [OF assms] to_int16_def Let_def
        clamp_and_scale_def)
  with r s show ?thesis by simp
qed

theorem float_to_pcm_clamp_scale_witness:
  "decode_float32 0x3FC00000 \<noteq> NaN \<and>
   decode_float32 0x3FC00000 = Finite (3 / 2) \<and>
   float_to_pcm (decode_float32 0x3FC00000) = Inr 32767 \<and>
   clamp_and_scale (decode_float32 0x3FC00000) = 32767"
proof -
  have n: "decode_float32 0x3FC00000 \<noteq> NaN" by code_simp
  have d: "decode_float32 0x3FC00000 = Finite (3 / 2)" by code_simp
  have c: "clamp_and_scale (decode_float32 0x3FC00000) = 32767" by code_simp
  from float_to_pcm_clamp_scale [OF n] obtain s where
    s: "float_to_pcm (decode_float32 0x3FC00000) = Inr s"
    "sint s = clamp_and_scale (decode_float32 0x3FC00000)" by blast
  have e: "float_to_pcm (decode_float32 0x3FC00000) = Inr 32767" by code_simp
  from s e n d c show ?thesis by simp
qed

text \<open>
  C2 as stated fails at its own example. The sample -2.0 is clamped to -1.0 and scaled by
  32767: the result is -32767, not -32768. And the product is rounded to single precision
  before it is truncated: for the sample 32769/65536 the code gives 16384, where the
  exact product truncates to 16383.
\<close>

theorem normalizer_counterexample:
  "decode_float32 0xC0000000 = Finite (- 2) \<and>
   float_to_pcm (decode_float32 0xC0000000) = Inr (- 32767) \<and>
   sint (- 32767 :: int16) = - 32767 \<and>
   decode_float32 0x3F000100 = Finite (32769 / 65536) \<and>
   float_to_pcm (decode_float32 0x3F000100) = Inr 16384 \<and>
   trunc_toward_zero (32769 / 65536 * 32767) = 16383"
  by code_simp

section \<open>Resampling by linear interpolation\<close>

lemma resample_ratio_bounds:
  fixes s t :: int
  assumes s: "0 < s" "s < 2 ^ 31" and t: "0 < t" "t < 2 ^ 31"
  defines "X \<equiv> (of_int s / of_int t :: rat)"
  shows "1 / 2 ^ 31 \<le> X" "X * (1 - u64) \<le> fl64 X" "fl64 X \<le> X * (1 + u64)" "1 / 2 ^ 32 \<le> fl64 X"
proof -
  have S: "(1 :: rat) \<le> of_int s" using s(1) by (simp add: int_one_le_iff_zero_less)
  have T: "(0 :: rat) < of_int t" "(of_int t :: rat) \<le> 2 ^ 31"
    using t by (simp_all add: of_int_le_numeral_power_cancel_iff less_imp_le)
  have "1 / 2 ^ 31 \<le> 1 / (of_int t :: rat)" using T by (simp add: field_simps)
  also have "\<dots> \<le> X" unfolding X_def using S T(1) by (simp add: divide_right_mono)
  finally show X: "1 / 2 ^ 31 \<le> X" .
  then have "1 / 2 ^ 64 \<le> X" by simp
  from fl64_two_sided [OF this]
  show b: "X * (1 - u64) \<le> fl64 X" "fl64 X \<le> X * (1 + u64)" .
  have "1 / 2 ^ 32 \<le> (1 / 2 ^ 31) * (1 - u64)" by (simp add: u64_def)
  also have "\<dots> \<le> X * (1 - u64)" using X by (intro mult_right_mono) (simp_all add: u64_def)
  finally show "1 / 2 ^ 32 \<le> fl64 X" using b(1) by simp
qed

lemma resample_size_bounds:
  fixes s t :: int and n :: nat
  assumes s: "0 < s" "s < 2 ^ 31" and t: "0 < t" "t < 2 ^ 31"
    and nt: "int n * t < 2 ^ 50 * s" and n: "0 < n"
  defines "r \<equiv> fl64 (of_int s / of_int t)"
  defines "Y \<equiv> of_nat n / r"
  shows "1 / 2 ^ 64 \<le> Y" "Y * (1 - u64) < 2 ^ 50" "0 < r"
proof -
  define X :: rat where "X = of_int s / of_int t"
  note rb = resample_ratio_bounds [OF s t, folded X_def r_def]
  show r: "0 < r" using rb(4) by (rule less_le_trans [rotated]) simp
  have Xp: "0 < X" using rb(1) by (rule less_le_trans [rotated]) simp
  have u: "0 < 1 - u64" by (simp add: u64_def)
  have "r \<le> X * 2" using rb(3) Xp by (simp add: u64_def algebra_simps)
  moreover have "X < 2 ^ 31"
  proof -
    have "(of_int s :: rat) < 2 ^ 31" using s(2) by (simp add: of_int_less_numeral_power_cancel_iff)
    moreover have "(1 :: rat) \<le> of_int t" using t(1) by (simp add: int_one_le_iff_zero_less)
    ultimately show ?thesis unfolding X_def by (simp add: field_simps)
  qed
  ultimately have r32: "r \<le> 2 ^ 32" by simp
  have N: "(1 :: rat) \<le> of_nat n" using n by simp
  have "1 / 2 ^ 32 \<le> 1 / r" using r r32 by (simp add: field_simps)
  also have "\<dots> \<le> Y" unfolding Y_def using N r by (simp add: divide_right_mono)
  finally show "1 / 2 ^ 64 \<le> Y" by simp
  have nX: "of_nat n / X < 2 ^ 50"
  proof -
    have "(of_int (int n * t) :: rat) < of_int (2 ^ 50 * s)" using nt by (simp only: of_int_less_iff)
    then have "of_nat n * (of_int t :: rat) < 2 ^ 50 * of_int s" by simp
    moreover have "(0 :: rat) < of_int s" "(0 :: rat) < of_int t" using s(1) t(1) by simp_all
    ultimately show ?thesis unfolding X_def by (simp add: field_simps)
  qed
  have "Y * (1 - u64) = of_nat n * (1 - u64) / r" by (simp add: Y_def)
  also have "\<dots> \<le> of_nat n * (1 - u64) / (X * (1 - u64))"
    using rb(2) Xp u by (intro divide_left_mono) (simp_all add: r)
  also have "\<dots> = of_nat n / X" using u by simp
  finally show "Y * (1 - u64) < 2 ^ 50" using nX by simp
qed

lemma resample_newSize_bounds:
  fixes s t :: int and n :: nat
  assumes s: "0 < s" "s < 2 ^ 31" and t: "0 < t" "t < 2 ^ 31"
    and nt: "int n * t < 2 ^ 50 * s"
  defines "r \<equiv> fl64 (of_int s / of_int t)"
  defines "q \<equiv> fl64 (of_nat n / r)"
  shows "0 \<le> q" "q < 2 ^ 51"
proof -
  have "0 \<le> q \<and> q < 2 ^ 51"
  proof (cases "n = 0")
    case True
    then show ?thesis by (simp add: q_def fl64_0)
  next
    case False
    then have n: "0 < n" by simp
    define Y where "Y = of_nat n / r"
    note sb = resample_size_bounds [OF s t nt n, folded r_def, folded Y_def]
    note qb = fl64_two_sided [OF sb(1), folded Y_def q_def]
    have Y: "0 < Y" using sb(1) by (rule less_le_trans [rotated]) simp
    have "0 \<le> Y * (1 - u64)" using Y by (simp add: u64_def)
    with qb(1) have q0: "0 \<le> q" by (simp add: q_def Y_def)
    have "Y * (1 + u64) \<le> 2 * (Y * (1 - u64))" using Y by (simp add: u64_def algebra_simps)
    with qb(2) sb(2) have "q < 2 ^ 51" by (simp add: q_def Y_def)
    with q0 show ?thesis by simp
  qed
  then show "0 \<le> q" "q < 2 ^ 51" by simp_all
qed

lemma resample_index_in_range:
  fixes s t :: int and n i :: nat
  assumes s: "0 < s" "s < 2 ^ 31" and t: "0 < t" "t < 2 ^ 31"
    and nt: "int n * t < 2 ^ 50 * s"
  defines "r \<equiv> fl64 (of_int s / of_int t)"
  assumes i: "of_nat i + 1 \<le> fl64 (of_nat n / r)"
  shows "0 \<le> fl64 (of_nat i * r)" "fl64 (of_nat i * r) < of_nat n"
proof -
  have n: "0 < n"
  proof (rule ccontr)
    assume "\<not> 0 < n"
    then have "fl64 (of_nat n / r) = 0" by (simp add: fl64_0)
    with i show False by simp
  qed
  define Y where "Y = of_nat n / r"
  define N :: rat where "N = of_nat n"
  note sb = resample_size_bounds [OF s t nt n, folded r_def, folded Y_def]
  note qb = fl64_two_sided [OF sb(1)]
  note rb = resample_ratio_bounds [OF s t, folded r_def]
  have r: "0 < r" by (rule sb(3))
  have N1: "1 \<le> N" using n by (simp add: N_def)
  have Yr: "Y * r = N" using r by (simp add: Y_def N_def)
  have "0 \<le> fl64 (of_nat i * r) \<and> fl64 (of_nat i * r) < N"
  proof (cases "i = 0")
    case True
    with N1 show ?thesis by (simp add: fl64_0)
  next
    case False
    define I :: rat where "I = of_nat i"
    define Z where "Z = I * r"
    have I1: "1 \<le> I" using False by (simp add: I_def)
    have "r \<le> Z" unfolding Z_def using I1 r by simp
    with rb(4) have Z: "1 / 2 ^ 64 \<le> Z" by simp
    note pb = fl64_two_sided [OF Z]
    have Zp: "0 < Z" using Z by (rule less_le_trans [rotated]) simp
    have lo: "0 \<le> fl64 Z" using pb(1) Zp
      by (rule_tac order_trans [where y = "Z * (1 - u64)"]) (simp_all add: u64_def)
    (* From i + 1 \<le> q \<le> Y (1 + u): Z \<le> N (1 + u) - r. *)
    have "I + 1 \<le> Y * (1 + u64)" using i qb(2) by (simp add: I_def Y_def)
    then have "(I + 1) * r \<le> Y * (1 + u64) * r" using r by (intro mult_right_mono) simp_all
    also have "\<dots> = N * (1 + u64)" using Yr by (simp add: algebra_simps)
    finally have Zb: "Z \<le> N * (1 + u64) - r" by (simp add: Z_def algebra_simps)
    (* From Y (1 - u) < 2 ^ 50: 4 N u < r. *)
    have "Y * (1 - u64) * r < 2 ^ 50 * r" using sb(2) r by (intro mult_strict_right_mono)
    then have "N * (1 - u64) < 2 ^ 50 * r" using Yr by (simp add: algebra_simps)
    moreover have "N / 2 \<le> N * (1 - u64)" using N1 by (simp add: u64_def algebra_simps)
    ultimately have "N / 2 < 2 ^ 50 * r" by simp
    then have big: "4 * (N * u64) < r" by (simp add: u64_def field_simps)
    have nu: "0 < N * u64" using N1 u64_pos by simp
    have "fl64 Z \<le> Z * (1 + u64)" by (rule pb(2))
    also have "\<dots> \<le> (N * (1 + u64) - r) * (1 + u64)"
      using Zb u64_pos by (intro mult_right_mono) simp_all
    also have "\<dots> < N"
    proof -
      have "4 * (N * u64) * u64 < r * u64" using big u64_pos by (intro mult_strict_right_mono)
      then have a: "4 * (N * u64 * u64) < r * u64" by (simp add: algebra_simps)
      have b: "0 < N * u64 * u64" using nu u64_pos by simp
      have "(N * (1 + u64) - r) * (1 + u64) =
          N + 2 * (N * u64) + N * u64 * u64 - r - r * u64" by (simp add: algebra_simps)
      with a b big nu show ?thesis by linarith
    qed
    finally have "fl64 Z < N" .
    with lo show ?thesis by (simp add: Z_def I_def)
  qed
  then show "0 \<le> fl64 (of_nat i * r)" "fl64 (of_nat i * r) < of_nat n"
    by (simp_all add: N_def)
qed

lemma abs_mult_le:
  fixes x y :: rat
  assumes "\<bar>x\<bar> \<le> X" "\<bar>y\<bar> \<le> Y"
  shows "\<bar>x * y\<bar> \<le> X * Y"
proof -
  have "\<bar>x * y\<bar> = \<bar>x\<bar> * \<bar>y\<bar>" by (rule abs_mult)
  also have "\<dots> \<le> X * Y" using assms by (intro mult_mono) simp_all
  finally show ?thesis .
qed

lemma interpolate_in_range:
  fixes a b :: int and d :: rat
  assumes a: "- 32768 \<le> a" "a \<le> 32767" and b: "- 32768 \<le> b" "b \<le> 32767"
    and d: "0 \<le> d" "d \<le> 1"
  defines "f \<equiv> fl64 d"
  defines "v \<equiv> fl64 (fl64 (of_int a * fl64 (1 - f)) + fl64 (of_int b * f))"
  shows "\<bar>v\<bar> < 32769" "v < 32768"
proof -
  define g where "g = fl64 (1 - f)"
  define A :: rat where "A = of_int a"
  define B :: rat where "B = of_int b"
  define P where "P = fl64 (A * g)"
  define Q where "Q = fl64 (B * f)"
  define E where "E = A * (1 - d) + B * d"
  have u: "0 < u64" "u64 \<le> 1 / 2 ^ 20" by (rule u64_pos, rule u64_small)
  have Ab: "- 32768 \<le> A" "A \<le> 32767" using a by (simp_all add: A_def)
  have Bb: "- 32768 \<le> B" "B \<le> 32767" using b by (simp_all add: B_def)
  have Aa: "\<bar>A\<bar> \<le> 32768" using Ab by simp
  have Ba: "\<bar>B\<bar> \<le> 32768" using Bb by simp
  have "\<bar>d\<bar> \<le> 2 ^ 0" using d by simp
  from fl64_absolute [OF this] have fd: "\<bar>f - d\<bar> \<le> u64" by (simp add: f_def u64_def)
  have "\<bar>1 - f\<bar> \<le> 2 ^ 1" using fd d u by simp
  from fl64_absolute [OF this] have gf: "\<bar>g - (1 - f)\<bar> \<le> 2 * u64"
    by (simp add: g_def u64_def)
  have ga: "\<bar>g\<bar> \<le> 2" using gf fd d u by simp
  have fa: "\<bar>f\<bar> \<le> 2" using fd d u by simp
  have "\<bar>A * g\<bar> \<le> 32768 * 2" using Aa ga by (rule abs_mult_le)
  then have Ag: "\<bar>A * g\<bar> \<le> 2 ^ 16" by simp
  from fl64_absolute [OF this] have p1: "\<bar>P - A * g\<bar> \<le> 65536 * u64"
    by (simp add: P_def u64_def)
  have "\<bar>B * f\<bar> \<le> 32768 * 2" using Ba fa by (rule abs_mult_le)
  then have Bf: "\<bar>B * f\<bar> \<le> 2 ^ 16" by simp
  from fl64_absolute [OF this] have p2: "\<bar>Q - B * f\<bar> \<le> 65536 * u64"
    by (simp add: Q_def u64_def)
  have "\<bar>P + Q\<bar> \<le> 2 ^ 18" using p1 p2 Ag Bf u by simp
  from fl64_absolute [OF this] have p3: "\<bar>v - (P + Q)\<bar> \<le> 262144 * u64"
    by (simp add: v_def P_def Q_def g_def A_def B_def u64_def)
  (* The exact blend lies between the two samples. *)
  have d1: "0 \<le> 1 - d" using d by simp
  have h1: "A * (1 - d) \<le> 32767 * (1 - d)" using Ab(2) d1 by (rule mult_right_mono)
  have h2: "B * d \<le> 32767 * d" using Bb(2) d(1) by (rule mult_right_mono)
  from h1 h2 have Ehi: "E \<le> 32767" by (simp add: E_def algebra_simps)
  have l1: "- 32768 * (1 - d) \<le> A * (1 - d)" using Ab(1) d1 by (rule mult_right_mono)
  have l2: "- 32768 * d \<le> B * d" using Bb(1) d(1) by (rule mult_right_mono)
  from l1 l2 have Elo: "- 32768 \<le> E" by (simp add: E_def algebra_simps)
  (* The blend of the rounded weights is close to it. *)
  have "\<bar>g - (1 - d)\<bar> \<le> 3 * u64" using gf fd by simp
  with Aa have t1: "\<bar>A * (g - (1 - d))\<bar> \<le> 32768 * (3 * u64)" by (rule abs_mult_le)
  from Ba fd have t2: "\<bar>B * (f - d)\<bar> \<le> 32768 * u64" by (rule abs_mult_le)
  have "A * g + B * f - E = A * (g - (1 - d)) + B * (f - d)"
    by (simp add: E_def algebra_simps)
  with t1 t2 have t3: "\<bar>A * g + B * f - E\<bar> \<le> 131072 * u64" by simp
  have "\<bar>v - E\<bar> \<le> 524288 * u64" using p1 p2 p3 t3 by simp
  with u have "\<bar>v - E\<bar> \<le> 1 / 2" by simp
  with Ehi Elo show "\<bar>v\<bar> < 32769" "v < 32768" by linarith+
qed

lemma collect_map_Inr:
  "(\<And>x. x \<in> set xs \<Longrightarrow> f x = Inr (g x)) \<Longrightarrow> collect (map f xs) = Inr (map g xs)"
  by (induction xs) simp_all

lemma to_size_t_nonneg:
  assumes "0 \<le> x" "x < 2 ^ 64"
  shows "to_size_t x = Inr (nat \<lfloor>x\<rfloor>)"
proof -
  have "x < of_int (2 ^ 64)" using assms(2) by simp
  then have "\<lfloor>x\<rfloor> < 2 ^ 64" by (simp only: floor_less_iff)
  moreover have "0 \<le> \<lfloor>x\<rfloor>" using assms(1) by simp
  ultimately show ?thesis using assms(1) by (simp add: to_size_t_def trunc_toward_zero_def)
qed

lemma to_int16_in_range:
  assumes "\<bar>v\<bar> < 32769" "v < 32768"
  shows "\<exists>w. to_int16 v = Inr w \<and> sint w = trunc_toward_zero v"
proof -
  have "\<bar>v\<bar> < of_int 32769" using assms(1) by simp
  from trunc_toward_zero_bound [OF this]
  have lo: "- 32768 \<le> trunc_toward_zero v" by simp
  have hi: "trunc_toward_zero v \<le> 32767"
  proof (cases "0 \<le> v")
    case True
    have "v < of_int 32768" using assms(2) by simp
    then have "\<lfloor>v\<rfloor> < 32768" by (simp only: floor_less_iff)
    with True show ?thesis by (simp add: trunc_toward_zero_def)
  next
    case False
    then have "\<lceil>v\<rceil> \<le> 0" by (simp add: ceiling_le_iff)
    with False show ?thesis by (simp add: trunc_toward_zero_def)
  qed
  from lo hi have "sint (word_of_int (trunc_toward_zero v) :: int16) = trunc_toward_zero v"
    by (rule sint_int16_of_int)
  with lo hi show ?thesis by (simp add: to_int16_def Let_def)
qed

text \<open>One iteration of the resampling loop, for an output index below the new size.\<close>

lemma resample_at_value:
  fixes s t :: int and xs :: "int16 list" and i :: nat
  assumes s: "0 < s" "s < 2 ^ 31" and t: "0 < t" "t < 2 ^ 31"
    and n: "length xs < 2 ^ 50" and nt: "int (length xs) * t < 2 ^ 50 * s"
  defines "ratio \<equiv> fl64 (of_int s / of_int t)"
  assumes i: "i < nat \<lfloor>fl64 (of_nat (length xs) / ratio)\<rfloor>"
  defines "srcPos \<equiv> fl64 (of_nat i * ratio)"
  defines "idx \<equiv> nat \<lfloor>srcPos\<rfloor>"
  defines "fr \<equiv> fl64 (srcPos - of_nat idx)"
  shows "\<exists>y. resample_at xs ratio i = Inr y \<and> idx < length xs \<and>
           (if idx + 1 < length xs
            then sint y = trunc_toward_zero
                   (fl64 (fl64 (of_int (sint (xs ! idx)) * fl64 (1 - fr)) +
                          fl64 (of_int (sint (xs ! (idx + 1))) * fr)))
            else y = xs ! idx)"
proof -
  define q where "q = fl64 (of_nat (length xs) / ratio)"
  note qb = resample_newSize_bounds [OF s t nt, folded ratio_def, folded q_def]
  have "int i + 1 \<le> \<lfloor>q\<rfloor>" using i by (simp add: q_def)
  then have iq: "of_nat i + 1 \<le> q" by (simp add: le_floor_iff)
  note ib = resample_index_in_range [OF s t nt, folded ratio_def, folded q_def, OF iq, folded srcPos_def]
  have "(of_nat i :: rat) < 2 ^ 51" using iq qb(2) by simp
  then have "i < 2 ^ 51" by (metis of_nat_less_iff of_nat_numeral of_nat_power)
  then have "fl64 (of_nat i) = of_nat i" by (intro fl64_of_nat) simp
  then have pos: "fl64 (fl64 (of_nat i) * ratio) = srcPos" by (simp add: srcPos_def)
  have "srcPos < 2 ^ 64"
  proof -
    have "(of_nat (length xs) :: rat) < of_nat (2 ^ 50)" using n by (simp only: of_nat_less_iff)
    with ib(2) show ?thesis by simp
  qed
  with ib(1) have sz: "to_size_t srcPos = Inr idx" by (simp add: to_size_t_nonneg idx_def)
  have fidx: "of_nat idx = (of_int \<lfloor>srcPos\<rfloor> :: rat)" using ib(1) by (simp add: idx_def)
  have "\<lfloor>srcPos\<rfloor> < int (length xs)" using ib(2) by (simp add: floor_less_iff)
  moreover have "0 \<le> \<lfloor>srcPos\<rfloor>" using ib(1) by simp
  ultimately have idx: "idx < length xs" unfolding idx_def by linarith
  then have "idx \<le> 2 ^ 53" using n by simp
  then have "fl64 (of_nat idx) = of_nat idx" by (rule fl64_of_nat)
  then have fre: "fl64 (srcPos - fl64 (of_nat idx)) = fr" by (simp add: fr_def)
  have d: "0 \<le> srcPos - of_nat idx" "srcPos - of_nat idx \<le> 1"
    unfolding fidx by linarith+
  show ?thesis
  proof (cases "idx + 1 < length xs")
    case True
    let ?v = "fl64 (fl64 (of_int (sint (xs ! idx)) * fl64 (1 - fr)) +
                    fl64 (of_int (sint (xs ! (idx + 1))) * fr))"
    have ra: "- 32768 \<le> sint (xs ! idx)" "sint (xs ! idx) \<le> 32767"
      using sint_int16_range [of "xs ! idx"] by simp_all
    have rb: "- 32768 \<le> sint (xs ! (idx + 1))" "sint (xs ! (idx + 1)) \<le> 32767"
      using sint_int16_range [of "xs ! (idx + 1)"] by simp_all
    note v = interpolate_in_range [OF ra rb d, folded fr_def]
    from to_int16_in_range [OF v] obtain w where
      w: "to_int16 ?v = Inr w" "sint w = trunc_toward_zero ?v" by blast
    have "resample_at xs ratio i = Inr w"
      using True w(1) by (simp add: resample_at_def Let_def pos sz fre)
    with w(2) idx True show ?thesis by simp
  next
    case False
    have "resample_at xs ratio i = Inr (xs ! idx)"
      using False idx by (simp add: resample_at_def Let_def pos sz fre)
    with idx False show ?thesis by simp
  qed
qed

text \<open>
  C4, as the code has it. The rates are positive \<open>int\<close>s that differ, the snapshot has fewer
  than \<open>2 ^ 50\<close> samples, and \<open>n * t < 2 ^ 50 * s\<close> for \<open>n\<close> samples resampled from rate \<open>s\<close> to
  rate \<open>t\<close>. Then the resampler returns, and every step is the double-precision one:
  \<open>ratio\<close> is the rounded quotient of the rates, the output has \<open>floor (fl64 (n / ratio))\<close>
  samples, and for each output index \<open>i\<close>, with \<open>srcPos = fl64 (i * ratio)\<close>,
  \<open>idx = floor srcPos\<close> and \<open>fr = fl64 (srcPos - idx)\<close>, the index \<open>idx\<close> is within the input
  and the output sample is the rounded blend
  \<open>fl64 (fl64 (input[idx] * fl64 (1 - fr)) + fl64 (input[idx+1] * fr))\<close> truncated toward
  zero, which always fits 16 bits; when \<open>idx + 1\<close> is out of bounds it is \<open>input[idx]\<close>.
\<close>

theorem resample_linear_interpolation:
  fixes s t :: int and xs :: "int16 list"
  assumes s: "0 < s" "s < 2 ^ 31" and t: "0 < t" "t < 2 ^ 31" and st: "s \<noteq> t"
    and n: "length xs < 2 ^ 50" and nt: "int (length xs) * t < 2 ^ 50 * s"
  shows "\<exists>ys. resample s t xs = Inr ys \<and>
     length ys = nat \<lfloor>fl64 (of_nat (length xs) / fl64 (of_int s / of_int t))\<rfloor> \<and>
     (\<forall>i < length ys.
        let ratio = fl64 (of_int s / of_int t);
            srcPos = fl64 (of_nat i * ratio);
            idx = nat \<lfloor>srcPos\<rfloor>;
            fr = fl64 (srcPos - of_nat idx)
        in idx < length xs \<and>
           (if idx + 1 < length xs
            then sint (ys ! i) = trunc_toward_zero
                   (fl64 (fl64 (of_int (sint (xs ! idx)) * fl64 (1 - fr)) +
                          fl64 (of_int (sint (xs ! (idx + 1))) * fr)))
            else ys ! i = xs ! idx))"
proof -
  define ratio where "ratio = fl64 (of_int s / of_int t)"
  define q where "q = fl64 (of_nat (length xs) / ratio)"
  define newSize where "newSize = nat \<lfloor>q\<rfloor>"
  let ?P = "\<lambda>i y.
        let srcPos = fl64 (of_nat i * ratio);
            idx = nat \<lfloor>srcPos\<rfloor>;
            fr = fl64 (srcPos - of_nat idx)
        in idx < length xs \<and>
           (if idx + 1 < length xs
            then sint y = trunc_toward_zero
                   (fl64 (fl64 (of_int (sint (xs ! idx)) * fl64 (1 - fr)) +
                          fl64 (of_int (sint (xs ! (idx + 1))) * fr)))
            else y = xs ! idx)"
  note qb = resample_newSize_bounds [OF s t nt, folded ratio_def, folded q_def]
  have "length xs \<le> 2 ^ 53" using n by simp
  then have nn: "fl64 (of_nat (length xs)) = of_nat (length xs)" by (rule fl64_of_nat)
  have "q < 2 ^ 64" using qb(2) by simp
  with qb(1) have sz: "to_size_t q = Inr newSize" by (simp add: to_size_t_nonneg newSize_def)
  have "\<forall>i. \<exists>y. i < newSize \<longrightarrow> resample_at xs ratio i = Inr y \<and> ?P i y"
    using resample_at_value [OF s t n nt, folded ratio_def]
    unfolding newSize_def q_def Let_def by blast
  then obtain g where g: "\<And>i. i < newSize \<Longrightarrow> resample_at xs ratio i = Inr (g i) \<and> ?P i (g i)"
    by metis
  have "collect (map (resample_at xs ratio) [0..<newSize]) = Inr (map g [0..<newSize])"
    using g by (intro collect_map_Inr) simp
  then have r: "resample s t xs = Inr (map g [0..<newSize])"
    using s(1) t(1) st by (simp add: resample_def Let_def nn sz ratio_def [symmetric] q_def [symmetric])
  have "\<forall>i < length (map g [0..<newSize]). ?P i (map g [0..<newSize] ! i)"
  proof (intro allI impI)
    fix i
    assume "i < length (map g [0..<newSize])"
    then have i: "i < newSize" by simp
    then have e: "map g [0..<newSize] ! i = g i" by simp
    from g [OF i] show "?P i (map g [0..<newSize] ! i)" unfolding e by (rule conjunct2)
  qed
  then have F: "\<forall>i < length (map g [0..<newSize]). ?P i (map g [0..<newSize] ! i)" .
  show ?thesis
  proof (intro exI conjI)
    show "resample s t xs = Inr (map g [0..<newSize])" by (rule r)
    show "length (map g [0..<newSize]) =
        nat \<lfloor>fl64 (of_nat (length xs) / fl64 (of_int s / of_int t))\<rfloor>"
      by (simp add: newSize_def q_def ratio_def)
    from F show "\<forall>i < length (map g [0..<newSize]).
        let ratio = fl64 (of_int s / of_int t);
            srcPos = fl64 (of_nat i * ratio);
            idx = nat \<lfloor>srcPos\<rfloor>;
            fr = fl64 (srcPos - of_nat idx)
        in idx < length xs \<and>
           (if idx + 1 < length xs
            then sint (map g [0..<newSize] ! i) = trunc_toward_zero
                   (fl64 (fl64 (of_int (sint (xs ! idx)) * fl64 (1 - fr)) +
                          fl64 (of_int (sint (xs ! (idx + 1))) * fr)))
            else map g [0..<newSize] ! i = xs ! idx)"
      unfolding Let_def ratio_def .
  qed
qed

theorem resample_linear_interpolation_witness:
  "(0 :: int) < 44100 \<and> (44100 :: int) < 2 ^ 31 \<and> (0 :: int) < 16000 \<and> (16000 :: int) < 2 ^ 31 \<and>
   (44100 :: int) \<noteq> 16000 \<and> length [0 :: int16, 0, 16000, 0, 0, 0] < 2 ^ 50 \<and>
   int (length [0 :: int16, 0, 16000, 0, 0, 0]) * 16000 < 2 ^ 50 * 44100 \<and>
   resample 44100 16000 [0, 0, 16000, 0, 0, 0] = Inr [0, 3899] \<and>
   length [0 :: int16, 3899] =
     nat \<lfloor>fl64 (of_nat (length [0 :: int16, 0, 16000, 0, 0, 0]) /
        fl64 (of_int 44100 / of_int 16000))\<rfloor> \<and>
   (let ratio = fl64 (of_int 44100 / of_int 16000);
        srcPos = fl64 (of_nat 1 * ratio);
        idx = nat \<lfloor>srcPos\<rfloor>;
        fr = fl64 (srcPos - of_nat idx)
    in idx < length [0 :: int16, 0, 16000, 0, 0, 0] \<and>
       (if idx + 1 < length [0 :: int16, 0, 16000, 0, 0, 0]
        then sint ([0 :: int16, 3899] ! 1) = trunc_toward_zero
               (fl64 (fl64 (of_int (sint ([0 :: int16, 0, 16000, 0, 0, 0] ! idx)) * fl64 (1 - fr)) +
                      fl64 (of_int (sint ([0 :: int16, 0, 16000, 0, 0, 0] ! (idx + 1))) * fr)))
        else [0 :: int16, 3899] ! 1 = [0 :: int16, 0, 16000, 0, 0, 0] ! idx)) \<and>
   nat \<lfloor>fl64 (of_nat 1 * fl64 (of_int 44100 / of_int 16000))\<rfloor> = 2"
proof -
  have h: "(0 :: int) < 44100" "(44100 :: int) < 2 ^ 31" "(0 :: int) < 16000" "(16000 :: int) < 2 ^ 31"
    "(44100 :: int) \<noteq> 16000" "length [0 :: int16, 0, 16000, 0, 0, 0] < 2 ^ 50"
    "int (length [0 :: int16, 0, 16000, 0, 0, 0]) * 16000 < 2 ^ 50 * 44100"
    by simp_all
  have e: "resample 44100 16000 [0, 0, 16000, 0, 0, 0] = Inr [0, 3899]" by code_simp
  have c: "nat \<lfloor>fl64 (of_nat 1 * fl64 (of_int 44100 / of_int 16000))\<rfloor> = 2"
    by code_simp
  from resample_linear_interpolation [OF h] obtain ys where
    ys: "resample 44100 16000 [0, 0, 16000, 0, 0, 0] = Inr ys"
    "length ys = nat \<lfloor>fl64 (of_nat (length [0 :: int16, 0, 16000, 0, 0, 0]) /
        fl64 (of_int 44100 / of_int 16000))\<rfloor>"
    "\<forall>i < length ys.
       let ratio = fl64 (of_int 44100 / of_int 16000);
           srcPos = fl64 (of_nat i * ratio);
           idx = nat \<lfloor>srcPos\<rfloor>;
           fr = fl64 (srcPos - of_nat idx)
       in idx < length [0 :: int16, 0, 16000, 0, 0, 0] \<and>
          (if idx + 1 < length [0 :: int16, 0, 16000, 0, 0, 0]
           then sint (ys ! i) = trunc_toward_zero
                  (fl64 (fl64 (of_int (sint ([0 :: int16, 0, 16000, 0, 0, 0] ! idx)) * fl64 (1 - fr)) +
                         fl64 (of_int (sint ([0 :: int16, 0, 16000, 0, 0, 0] ! (idx + 1))) * fr)))
           else ys ! i = [0 :: int16, 0, 16000, 0, 0, 0] ! idx)"
    by blast
  from ys(1) e have y: "ys = [0, 3899]" by simp
  have l: "1 < length [0 :: int16, 3899]" by simp
  note a = ys(2) [unfolded y] and b = ys(3) [unfolded y, rule_format, OF l]
  from h e a b c show ?thesis by blast
qed

text \<open>
  C4 as stated, with a real-valued ratio, fails. From 44100 Hz to 16000 Hz the ratio
  2.75625 has no finite binary expansion. For output index 1 the claim's formula over the
  reals gives \<open>idx = 2\<close>, \<open>frac = 0.75625\<close> and \<open>16000 * (1 - 0.75625) = 3900\<close> exactly; the code
  computes in doubles, lands just below 3900 and stores 3899.
\<close>

theorem resample_real_formula_counterexample:
  "resample 44100 16000 [0, 0, 16000, 0, 0, 0] = Inr [0, 3899] \<and>
   \<lfloor>6 / (44100 / 16000 :: rat)\<rfloor> = 2 \<and>
   \<lfloor>1 * (44100 / 16000 :: rat)\<rfloor> = 2 \<and>
   trunc_toward_zero (16000 * (1 - (1 * (44100 / 16000) - 2)) + 0 * (1 * (44100 / 16000) - 2)) = 3900"
  by code_simp

end
